theory Spec2Isabelle
  imports Complex_Main "HOL-Library.Multiset"
begin

section \<open>Data model of optimize.py\<close>

text \<open>
  The search harness of \<^verbatim>\<open>src/config_optimization/optimize.py\<close> is embedded function by
  function. Conventions of the embedding:
  \<^item> a Python \<^verbatim>\<open>float\<close> is a \<^typ>\<open>real\<close>: comparisons of finite floats are the comparisons of
    the reals they denote, and the arithmetic of the source is written with the same
    expression over the reals (rounding, infinities and NaN are outside the model; where
    an operation of Python raises instead of returning a float, the model raises too);
  \<^item> a Python \<^verbatim>\<open>int\<close> is an \<^typ>\<open>int\<close>;
  \<^item> a dictionary with a fixed set of possible keys is a record whose fields are options
    (\<open>None\<close>: the key is absent), read with the default that the source passes to
    \<^verbatim>\<open>.get\<close>;
  \<^item> an exception is a value; a \<^verbatim>\<open>try\<close> block is a function that returns what was raised
    together with the state reached, and the handler is applied to that.
\<close>

text \<open>
  The inner dictionary \<^verbatim>\<open>config['nginx']\<close>. The outer dictionary has the single key
  \<^verbatim>\<open>'nginx'\<close> and is always read through \<^verbatim>\<open>config.get('nginx', {})\<close>, so a
  configuration is identified with its inner dictionary.
\<close>

record nginx_config =
  worker_connections :: "int option"
  keepalive_timeout :: "int option"
  upstream_keepalive :: "int option"

definition get_default_config :: nginx_config where
  "get_default_config =
     \<lparr>worker_connections = Some 1024, keepalive_timeout = Some 65, upstream_keepalive = Some 32\<rparr>"

text \<open>
  The value stored under \<^verbatim>\<open>'error'\<close> by \<^verbatim>\<open>run_load_test\<close>. The source's messages are Russian
  sentences; each constructor stands for one of them, in the order of the source:
  "results directory not found", "CSV results file not found", "the test exceeded the
  maximum time", and "Error: " followed by the text of the exception.
\<close>

datatype error_text =
    Results_dir_not_found
  | Csv_not_found
  | Test_exceeded_max_time
  | Other_error string

text \<open>
  The metrics dictionary. \<^verbatim>\<open>'rps'\<close> is present in every dictionary the source builds;
  the other keys are absent from the two-key dictionaries of the failure paths of
  \<^verbatim>\<open>run_load_test\<close>.
\<close>

record metrics =
  rps :: real
  avg_response_time :: "real option"
  total_requests :: "int option"
  success_rate :: "real option"
  error :: "error_text option"

record iteration_record =
  iteration :: nat
  config :: nginx_config
  metrics :: metrics

datatype py_exception =
    ValueError | TypeError | OSError | IndexError | OverflowError | ZeroDivisionError

datatype signal = KeyboardInterrupt | Exception py_exception

section \<open>Report generator (the summary figures of generate\_report)\<close>

text \<open>
  Python's \<^verbatim>\<open>max(xs, key=k)\<close>: the running maximum is replaced only by an item whose key is
  strictly greater, so the first of several maximal items is returned; on an empty
  list it raises ValueError (\<open>None\<close> here).
\<close>

fun max_from :: "('a \<Rightarrow> real) \<Rightarrow> 'a \<Rightarrow> 'a list \<Rightarrow> 'a" where
  "max_from key best [] = best"
| "max_from key best (x # xs) = max_from key (if key x > key best then x else best) xs"

definition py_max :: "('a \<Rightarrow> real) \<Rightarrow> 'a list \<Rightarrow> 'a option" where
  "py_max key xs = (case xs of [] \<Rightarrow> None | x # rest \<Rightarrow> Some (max_from key x rest))"

text \<open>
  The figures computed by \<^verbatim>\<open>generate_report\<close> before it renders them (lines 279 to 289) and
  the rows of its table; the HTML text and the charts are not modelled.
\<close>

record report =
  report_best_iter :: iteration_record
  report_best_rps :: real
  report_initial_rps :: real
  report_improvement :: real
  report_iterations :: nat
  report_rows :: "iteration_record list"

definition generate_report :: "iteration_record list \<Rightarrow> py_exception + report" where
  "generate_report history =
     (case py_max (\<lambda>x. rps (metrics x)) history of
        None \<Rightarrow> Inl ValueError
      | Some best_iter \<Rightarrow>
          (let best_rps = rps (metrics best_iter);
               initial_rps = (case history of [] \<Rightarrow> 0 | h # _ \<Rightarrow> rps (metrics h));
               improvement =
                 (if initial_rps > 0 then ((best_rps - initial_rps) / initial_rps) * 100 else 0)
           in Inr \<lparr>report_best_iter = best_iter, report_best_rps = best_rps,
                   report_initial_rps = initial_rps, report_improvement = improvement,
                   report_iterations = length history, report_rows = history\<rparr>))"

section \<open>Search driver (main)\<close>

text \<open>
  What the outside world does during one iteration of the driver. The calls
  \<^verbatim>\<open>apply_nginx_config\<close>, \<^verbatim>\<open>reset_system\<close>, \<^verbatim>\<open>restart_nginx\<close> and \<^verbatim>\<open>run_load_test\<close> of an
  iteration either end with a failed reset, or deliver the metrics of the load test, or
  are cut by a KeyboardInterrupt. The interrupt arrives before the record of the
  iteration is appended (during one of the calls, where the time is spent) or after it
  and before the comparison with the best result.
\<close>

datatype event =
    Reset_fails
  | Tested metrics
  | Interrupt_before_record
  | Interrupt_after_record metrics

record driver_state =
  history :: "iteration_record list"
  best_rps :: real
  best_config :: nginx_config

datatype loop_result = Finished driver_state | Interrupted driver_state

text \<open>Lines 527 to 535: the record is appended, then the best result is updated.\<close>

definition record_result :: "nat \<Rightarrow> nginx_config \<Rightarrow> metrics \<Rightarrow> driver_state \<Rightarrow> driver_state" where
  "record_result i c m st =
     (let st' = st\<lparr>history := history st @ [\<lparr>iteration = i, config = c, metrics = m\<rparr>]\<rparr>
      in if rps m > best_rps st' then st'\<lparr>best_rps := rps m, best_config := c\<rparr> else st')"

text \<open>
  The \<^verbatim>\<open>for\<close> loop of lines 509 to 535 over the iteration numbers of its range:
  \<^verbatim>\<open>break\<close> when the candidates are used up, \<^verbatim>\<open>continue\<close> when the reset fails.
\<close>

fun search_loop ::
  "nat list \<Rightarrow> nginx_config list \<Rightarrow> (nat \<Rightarrow> event) \<Rightarrow> driver_state \<Rightarrow> loop_result" where
  "search_loop [] configs env st = Finished st"
| "search_loop (i # rest) configs env st =
     (if i > length configs then Finished st
      else
        (let c = configs ! (i - 1) in
         case env i of
           Reset_fails \<Rightarrow> search_loop rest configs env st
         | Interrupt_before_record \<Rightarrow> Interrupted st
         | Interrupt_after_record m \<Rightarrow>
             Interrupted (st\<lparr>history := history st @ [\<lparr>iteration = i, config = c, metrics = m\<rparr>]\<rparr>)
         | Tested m \<Rightarrow> search_loop rest configs env (record_result i c m st)))"

section \<open>Candidate generation\<close>

text \<open>
  The slice \<^verbatim>\<open>xs[:n]\<close>: a negative \<open>n\<close> counts from the end, and the bounds are
  clamped to the list.
\<close>

definition py_prefix :: "int \<Rightarrow> 'a list \<Rightarrow> 'a list" where
  "py_prefix n xs =
     (if n < 0 then take (nat (int (length xs) + n)) xs else take (nat n) xs)"

text \<open>\<^verbatim>\<open>int(x)\<close> on a float truncates towards zero.\<close>

definition py_int :: "real \<Rightarrow> int" where
  "py_int x = (if x < 0 then \<lceil>x\<rceil> else \<lfloor>x\<rfloor>)"

text \<open>
  The three axes of lines 244 to 249. The fixed values are integers and the spaced ones
  floats in the source; both are reals here and pass through \<^verbatim>\<open>int(...)\<close> below.
\<close>

definition wc_values :: "int \<Rightarrow> real list" where
  "wc_values grid_size =
     (if grid_size \<le> 4 then py_prefix grid_size [512, 1024, 1536, 2048]
      else map (\<lambda>i. 512 + real i * (2048 - 512) / real_of_int (grid_size - 1))
             [0..<nat grid_size])"

definition kt_values :: "int \<Rightarrow> real list" where
  "kt_values grid_size =
     (if grid_size \<le> 4 then py_prefix grid_size [30, 60, 90, 120]
      else map (\<lambda>i. 30 + real i * (120 - 30) / real_of_int (grid_size - 1))
             [0..<nat grid_size])"

definition uk_values :: "int \<Rightarrow> real list" where
  "uk_values grid_size =
     (if grid_size \<le> 4 then py_prefix grid_size [16, 32, 48, 64]
      else map (\<lambda>i. 16 + real i * (64 - 16) / real_of_int (grid_size - 1))
             [0..<nat grid_size])"

definition generate_grid_configs :: "int \<Rightarrow> nginx_config list" where
  "generate_grid_configs grid_size =
     concat (map (\<lambda>wc.
       concat (map (\<lambda>kt.
         map (\<lambda>uk. \<lparr>worker_connections = Some (py_int wc),
                     keepalive_timeout = Some (py_int kt),
                     upstream_keepalive = Some (py_int uk)\<rparr>)
           (uk_values grid_size))
         (kt_values grid_size)))
       (wc_values grid_size))"

text \<open>
  \<^verbatim>\<open>random.shuffle\<close> as CPython writes it: for \<open>i\<close> from \<open>len(x) - 1\<close> down to \<open>1\<close>, an
  index \<open>j\<close> below \<open>i + 1\<close> is drawn and the items at \<open>i\<close> and \<open>j\<close> are exchanged. The
  generator is the function \<open>rand\<close>: the number it gives at step \<open>i\<close> is reduced below
  \<open>i + 1\<close>, so every sequence of draws is some \<open>rand\<close>.
\<close>

fun shuffle_down :: "(nat \<Rightarrow> nat) \<Rightarrow> nat \<Rightarrow> 'a list \<Rightarrow> 'a list" where
  "shuffle_down rand 0 xs = xs"
| "shuffle_down rand (Suc k) xs =
     (let i = Suc k; j = rand i mod (i + 1)
      in shuffle_down rand k (xs[i := xs ! j, j := xs ! i]))"

definition shuffle :: "(nat \<Rightarrow> nat) \<Rightarrow> 'a list \<Rightarrow> 'a list" where
  "shuffle rand xs = shuffle_down rand (length xs - 1) xs"

record args =
  iterations :: int
  grid_size :: int

text \<open>Lines 472 to 476 of main: generate, shuffle, truncate.\<close>

definition candidate_configs :: "args \<Rightarrow> (nat \<Rightarrow> nat) \<Rightarrow> nginx_config list" where
  "candidate_configs a rand =
     (let configs = shuffle rand (generate_grid_configs (grid_size a))
      in if int (length configs) > iterations a then py_prefix (iterations a) configs
         else configs)"

section \<open>The body of main and its handlers\<close>

text \<open>
  The world of one run: the random draws of the shuffle and what happens at each
  iteration number (\<open>0\<close> is the baseline, where \<open>Reset_fails\<close> is the failure of the
  initial reset).
\<close>

record world =
  world_rand :: "nat \<Rightarrow> nat"
  world_event :: "nat \<Rightarrow> event"

text \<open>
  How the \<^verbatim>\<open>try\<close> block of main ends: by the \<^verbatim>\<open>return\<close> of line 490, by running to
  its last line (with the final state, the improvement it logged and the report it
  generated, the history file \<^verbatim>\<open>optimization_history.json\<close> being written on the way),
  or by raising, with the value that the variable \<^verbatim>\<open>history\<close> has at that moment.
\<close>

datatype try_result =
    Returned_early
  | Ran_through driver_state real report
  | Raised signal "iteration_record list"

definition main_try :: "args \<Rightarrow> world \<Rightarrow> try_result" where
  "main_try a w =
     (let configs = candidate_configs a (world_rand w);
          initial_config = get_default_config
      in case world_event w 0 of
           Reset_fails \<Rightarrow> Returned_early
         | Interrupt_before_record \<Rightarrow> Raised KeyboardInterrupt []
         | Interrupt_after_record m \<Rightarrow>
             Raised KeyboardInterrupt [\<lparr>iteration = 0, config = initial_config, metrics = m\<rparr>]
         | Tested initial_metrics \<Rightarrow>
             (let initial_rps = rps initial_metrics;
                  st0 = \<lparr>history = [\<lparr>iteration = 0, config = initial_config,
                                       metrics = initial_metrics\<rparr>],
                         best_rps = initial_rps, best_config = initial_config\<rparr>
              in case search_loop [1..<Suc (nat (iterations a))] configs (world_event w) st0 of
                   Interrupted st \<Rightarrow> Raised KeyboardInterrupt (history st)
                 | Finished st \<Rightarrow>
                     (let improvement =
                            (if initial_rps > 0
                             then ((best_rps st - initial_rps) / initial_rps) * 100 else 0)
                      in case generate_report (history st) of
                           Inl e \<Rightarrow> Raised (Exception e) (history st)
                         | Inr rep \<Rightarrow> Ran_through st improvement rep)))"

datatype outcome = Aborted | Completed | Cancelled | Failed py_exception

text \<open>
  What a run of main leaves behind: the history files it wrote (name and content), the
  report, the best result and the improvement it logged, and the signal that leaves
  main, if any.
\<close>

record run =
  run_outcome :: outcome
  run_files :: "(string \<times> iteration_record list) list"
  run_report :: "report option"
  run_best :: "(real \<times> nginx_config) option"
  run_improvement :: "real option"
  run_propagated :: "signal option"

definition main :: "args \<Rightarrow> world \<Rightarrow> run" where
  "main a w =
     (case main_try a w of
        Returned_early \<Rightarrow>
          \<lparr>run_outcome = Aborted, run_files = [], run_report = None, run_best = None,
           run_improvement = None, run_propagated = None\<rparr>
      | Ran_through st improvement rep \<Rightarrow>
          \<lparr>run_outcome = Completed,
           run_files = [(''optimization_history.json'', history st)],
           run_report = Some rep, run_best = Some (best_rps st, best_config st),
           run_improvement = Some improvement, run_propagated = None\<rparr>
      | Raised KeyboardInterrupt h \<Rightarrow>
          \<lparr>run_outcome = Cancelled,
           run_files = (if h \<noteq> [] then [(''optimization_history_partial.json'', h)] else []),
           run_report = None, run_best = None, run_improvement = None,
           run_propagated = None\<rparr>
      | Raised (Exception e) h \<Rightarrow>
          \<lparr>run_outcome = Failed e, run_files = [], run_report = None, run_best = None,
           run_improvement = None, run_propagated = None\<rparr>)"

section \<open>Result parser (parse\_locust\_results)\<close>

text \<open>
  A row of \<^verbatim>\<open>csv.DictReader\<close> is a dictionary from the column names of the header to the
  cells of the row. A cell is a string, or \<^verbatim>\<open>None\<close> where the row is shorter than the
  header. The artifact is what iterating the reader delivers: rows, up to a point where
  reading raises, if it does; or the file cannot be opened at all.
\<close>

datatype cell = Str string | NoneCell

type_synonym row = "string \<Rightarrow> cell option"

datatype read_item = Row row | Read_error py_exception

datatype artifact = Unreadable py_exception | Table "read_item list"

text \<open>The dictionary with which \<^verbatim>\<open>parse_locust_results\<close> starts (lines 209 to 214).\<close>

definition zero_metrics :: metrics where
  "zero_metrics = \<lparr>rps = 0, avg_response_time = Some 0, total_requests = Some 0,
                     success_rate = Some 0, error = None\<rparr>"

text \<open>
  \<^verbatim>\<open>float(row.get(key, 0))\<close> and \<^verbatim>\<open>int(row.get(key, 0))\<close>. The conversions of Python from a
  string are the parameters \<open>F\<close> and \<open>I\<close> (\<open>None\<close>: the conversion raises ValueError); a
  missing key gives the default \<open>0\<close>, and a \<^verbatim>\<open>None\<close> cell raises TypeError.
\<close>

definition float_of_cell :: "(string \<Rightarrow> real option) \<Rightarrow> cell option \<Rightarrow> py_exception + real" where
  "float_of_cell F v =
     (case v of
        None \<Rightarrow> Inr 0
      | Some NoneCell \<Rightarrow> Inl TypeError
      | Some (Str s) \<Rightarrow> (case F s of None \<Rightarrow> Inl ValueError | Some x \<Rightarrow> Inr x))"

definition int_of_cell :: "(string \<Rightarrow> int option) \<Rightarrow> cell option \<Rightarrow> py_exception + int" where
  "int_of_cell I v =
     (case v of
        None \<Rightarrow> Inr 0
      | Some NoneCell \<Rightarrow> Inl TypeError
      | Some (Str s) \<Rightarrow> (case I s of None \<Rightarrow> Inl ValueError | Some n \<Rightarrow> Inr n))"

definition is_aggregated :: "row \<Rightarrow> bool" where
  "is_aggregated r \<longleftrightarrow>
     r ''Type'' = Some (Str ''Aggregated'') \<or> r ''Name'' = Some (Str ''Aggregated'')"

text \<open>
  The true division \<^verbatim>\<open>a / b\<close> of two integers. It gives the float nearest to the
  quotient and raises OverflowError when that is beyond the largest float, which is the
  case from \<open>2 ^ 1024 - 2 ^ 970\<close> on (half a unit in the last place above the largest
  float); dividing by zero raises ZeroDivisionError.
\<close>

definition too_large :: "real \<Rightarrow> bool" where
  "too_large x \<longleftrightarrow> \<bar>x\<bar> \<ge> 2 ^ 1024 - 2 ^ 970"

definition true_div :: "int \<Rightarrow> int \<Rightarrow> py_exception + real" where
  "true_div a b =
     (if b = 0 then Inl ZeroDivisionError
      else if too_large (real_of_int a / real_of_int b) then Inl OverflowError
      else Inr (real_of_int a / real_of_int b))"

text \<open>
  Lines 221 to 230, the body of the \<^verbatim>\<open>if\<close>: the dictionary \<open>m\<close> is updated in place, one
  assignment after the other, and a conversion or a division that raises leaves it as
  it is at that moment. The result is what was raised, if anything, and the
  dictionary. The request count is assigned (line 228) before the success rate is
  computed (line 229). The product with 100 is a product of floats, which does not
  raise; where it is \<open>too_large\<close>, Python gives an infinity, which is outside the model.
\<close>

definition read_aggregated ::
  "(string \<Rightarrow> real option) \<Rightarrow> (string \<Rightarrow> int option) \<Rightarrow> row \<Rightarrow> metrics
     \<Rightarrow> py_exception option \<times> metrics" where
  "read_aggregated F I r m =
     (case float_of_cell F (r ''Requests/s'') of
        Inl e \<Rightarrow> (Some e, m)
      | Inr x \<Rightarrow>
          (let m1 = m\<lparr>rps := x\<rparr> in
           case float_of_cell F (r ''Average Response Time'') of
             Inl e \<Rightarrow> (Some e, m1)
           | Inr t \<Rightarrow>
               (let m2 = m1\<lparr>avg_response_time := Some t\<rparr> in
                case int_of_cell I (r ''Request Count'') of
                  Inl e \<Rightarrow> (Some e, m2)
                | Inr requests \<Rightarrow>
                    (case int_of_cell I (r ''Failure Count'') of
                       Inl e \<Rightarrow> (Some e, m2)
                     | Inr failures \<Rightarrow>
                         if requests > 0
                         then
                           (let m3 = m2\<lparr>total_requests := Some requests\<rparr> in
                            case true_div (requests - failures) requests of
                              Inl e \<Rightarrow> (Some e, m3)
                            | Inr q \<Rightarrow> (None, m3\<lparr>success_rate := Some (q * 100)\<rparr>))
                         else (None, m2)))))"

text \<open>The \<^verbatim>\<open>for\<close> loop over the reader, with its \<^verbatim>\<open>break\<close> after the first matching row.\<close>

fun scan_rows ::
  "(string \<Rightarrow> real option) \<Rightarrow> (string \<Rightarrow> int option) \<Rightarrow> read_item list \<Rightarrow> metrics
     \<Rightarrow> py_exception option \<times> metrics" where
  "scan_rows F I [] m = (None, m)"
| "scan_rows F I (Read_error e # rest) m = (Some e, m)"
| "scan_rows F I (Row r # rest) m =
     (if is_aggregated r then read_aggregated F I r m else scan_rows F I rest m)"

text \<open>The \<^verbatim>\<open>try\<close> block, and the function: the handler prints a warning and goes on.\<close>

definition parse_try ::
  "(string \<Rightarrow> real option) \<Rightarrow> (string \<Rightarrow> int option) \<Rightarrow> artifact
     \<Rightarrow> py_exception option \<times> metrics" where
  "parse_try F I art =
     (case art of
        Unreadable e \<Rightarrow> (Some e, zero_metrics)
      | Table items \<Rightarrow> scan_rows F I items zero_metrics)"

definition parse_locust_results ::
  "(string \<Rightarrow> real option) \<Rightarrow> (string \<Rightarrow> int option) \<Rightarrow> artifact \<Rightarrow> metrics" where
  "parse_locust_results F I art = snd (parse_try F I art)"

text \<open>
  The conversions on plain decimal literals (an optional minus sign, digits, and for a
  float an optional point followed by digits), where they are what \<^verbatim>\<open>int\<close> and \<^verbatim>\<open>float\<close>
  of Python compute on strings of digits and on text without any digit; they serve the
  examples. The other forms that Python accepts (surrounding blanks, underscores,
  exponents, \<^verbatim>\<open>inf\<close>, \<^verbatim>\<open>nan\<close>) are not covered by them.
\<close>

definition digit_val :: "char \<Rightarrow> nat option" where
  "digit_val c =
     (let code = (of_char c :: nat)
      in if 48 \<le> code \<and> code \<le> 57 then Some (code - 48) else None)"

fun dec_nat :: "string \<Rightarrow> nat \<Rightarrow> nat option" where
  "dec_nat [] acc = Some acc"
| "dec_nat (c # cs) acc =
     (case digit_val c of None \<Rightarrow> None | Some d \<Rightarrow> dec_nat cs (10 * acc + d))"

definition dec_int :: "string \<Rightarrow> int option" where
  "dec_int s =
     (case s of
        [] \<Rightarrow> None
      | c # cs \<Rightarrow>
          if c = CHR ''-''
          then (if cs = [] then None else map_option (\<lambda>n. - int n) (dec_nat cs 0))
          else map_option int (dec_nat s 0))"

definition dec_float :: "string \<Rightarrow> real option" where
  "dec_float s =
     (let neg = (s \<noteq> [] \<and> hd s = CHR ''-'');
          body = (if neg then tl s else s);
          whole = takeWhile (\<lambda>c. c \<noteq> CHR ''.'') body;
          frac = drop (Suc (length whole)) body
      in if whole = [] then None
         else case (dec_nat whole 0, dec_nat frac 0) of
                (Some w, Some f) \<Rightarrow>
                  Some ((if neg then - 1 else 1) * (real w + real f / 10 ^ length frac))
              | _ \<Rightarrow> None)"

section \<open>Load-test runner (run\_load\_test)\<close>

text \<open>
  What the runner meets outside: whether starting the script raises (the text of the
  exception), for how many seconds the script runs (\<open>None\<close>: it does not end by itself),
  whether the results directory exists, whether listing it or reading a modification
  time raises, and the files \<^verbatim>\<open>test_*_stats.csv\<close> in the order of the listing, each with
  its modification time and its content.
\<close>

record load_env =
  launch_error :: "string option"
  run_seconds :: "int option"
  results_dir_exists :: bool
  listing_error :: "string option"
  stats_files :: "(real \<times> artifact) list"

datatype run_exception = TimeoutExpired | Other_exception string

text \<open>
  \<^verbatim>\<open>subprocess.run(..., timeout=t)\<close> without \<^verbatim>\<open>check\<close>: the exit status of the script is not
  looked at; TimeoutExpired is raised when the script has not ended after \<open>t\<close> seconds.
\<close>

definition subprocess_run :: "int \<Rightarrow> load_env \<Rightarrow> run_exception + unit" where
  "subprocess_run timeout env =
     (case launch_error env of
        Some e \<Rightarrow> Inl (Other_exception e)
      | None \<Rightarrow>
          (case run_seconds env of
             None \<Rightarrow> Inl TimeoutExpired
           | Some t \<Rightarrow> if t > timeout then Inl TimeoutExpired else Inr ()))"

text \<open>The two-key dictionary \<^verbatim>\<open>{'rps': 0.0, 'error': ...}\<close> of the failure paths.\<close>

definition failure :: "error_text \<Rightarrow> metrics" where
  "failure e = \<lparr>rps = 0, avg_response_time = None, total_requests = None,
                 success_rate = None, error = Some e\<rparr>"

text \<open>
  \<^verbatim>\<open>sorted(files, key=mtime, reverse=True)\<close>: the sort is stable, also in reverse, so files
  of equal time keep the order of the listing.
\<close>

definition newest_first :: "(real \<times> artifact) list \<Rightarrow> (real \<times> artifact) list" where
  "newest_first files = sort_key (\<lambda>f. - fst f) files"

definition run_load_test ::
  "(string \<Rightarrow> real option) \<Rightarrow> (string \<Rightarrow> int option) \<Rightarrow> int \<Rightarrow> int \<Rightarrow> int \<Rightarrow> load_env
     \<Rightarrow> metrics" where
  "run_load_test F I users spawn_rate duration env =
     (case subprocess_run (duration + 120) env of
        Inl TimeoutExpired \<Rightarrow> failure Test_exceeded_max_time
      | Inl (Other_exception e) \<Rightarrow> failure (Other_error e)
      | Inr _ \<Rightarrow>
          if \<not> results_dir_exists env then failure Results_dir_not_found
          else
            (case listing_error env of
               Some e \<Rightarrow> failure (Other_error e)
             | None \<Rightarrow>
                 (case newest_first (stats_files env) of
                    [] \<Rightarrow> failure Csv_not_found
                  | f # _ \<Rightarrow> parse_locust_results F I (snd f))))"

text \<open>
  How the rest of the program reads a metrics dictionary: \<^verbatim>\<open>.get(key, 0)\<close>
  (lines 300 to 302 and 428 to 430).
\<close>

definition get_avg_response_time :: "metrics \<Rightarrow> real" where
  "get_avg_response_time m = (case avg_response_time m of None \<Rightarrow> 0 | Some v \<Rightarrow> v)"

definition get_total_requests :: "metrics \<Rightarrow> int" where
  "get_total_requests m = (case total_requests m of None \<Rightarrow> 0 | Some v \<Rightarrow> v)"

definition get_success_rate :: "metrics \<Rightarrow> real" where
  "get_success_rate m = (case success_rate m of None \<Rightarrow> 0 | Some v \<Rightarrow> v)"

section \<open>Configuration editor (apply\_nginx\_config)\<close>

text \<open>
  The text of the configuration file is a \<^typ>\<open>string\<close>: a list of characters with code
  points below 256. On these, \<^verbatim>\<open>\s\<close> of Python's \<^verbatim>\<open>re\<close> matches the code points 9 to 13,
  28 to 32, 133 and 160, and \<^verbatim>\<open>\d\<close> matches the ten digits.
\<close>

definition is_space :: "char \<Rightarrow> bool" where
  "is_space c \<longleftrightarrow> (of_char c :: nat) \<in> {9, 10, 11, 12, 13, 28, 29, 30, 31, 32, 133, 160}"

definition is_digit :: "char \<Rightarrow> bool" where
  "is_digit c \<longleftrightarrow> 48 \<le> (of_char c :: nat) \<and> (of_char c :: nat) \<le> 57"

text \<open>
  The pattern \<^verbatim>\<open>name\s+\d+;\<close> at the start of \<open>s\<close>, with the blanks and the digits it
  matches. The three character classes are disjoint, so the greedy runs of blanks and
  of digits are the only way to match and nothing is gained by backtracking.
\<close>

definition match_directive :: "string \<Rightarrow> string \<Rightarrow> (string \<times> string) option" where
  "match_directive name s =
     (if take (length name) s \<noteq> name then None
      else
        (let s1 = drop (length name) s;
             ws = takeWhile is_space s1;
             s2 = dropWhile is_space s1;
             ds = takeWhile is_digit s2;
             s3 = dropWhile is_digit s2
         in if ws \<noteq> [] \<and> ds \<noteq> [] \<and> take 1 s3 = '';'' then Some (ws, ds) else None))"

text \<open>
  What \<^verbatim>\<open>re.sub\<close> sees in a text: the matches of the pattern, found from left to right
  without overlap, and the characters outside every match. A match is kept as the text
  before its digits, its digits and the text after them.
\<close>

datatype piece = Gap char | Hit string string string

fun find_directives :: "string \<Rightarrow> string \<Rightarrow> piece list" where
  "find_directives name [] = []"
| "find_directives name (c # cs) =
     (case match_directive name (c # cs) of
        None \<Rightarrow> Gap c # find_directives name cs
      | Some (ws, ds) \<Rightarrow>
          Hit (name @ ws) ds '';''
            # find_directives name (drop (length name + length ws + length ds) cs))"

text \<open>
  The pattern \<^verbatim>\<open>keepalive\s+\d+\s*;\<close> at the start of \<open>t\<close>, and the pattern
  \<^verbatim>\<open>(upstream backend \{[^}]*keepalive\s+)\d+(\s*;)\<close> at the start of \<open>s\<close>: the greedy
  \<^verbatim>\<open>[^}]*\<close> first takes every character up to the next closing brace and gives them
  back one by one until the rest of the pattern matches, so the last keepalive directive
  before the brace is the one that is found.
\<close>

definition match_keepalive :: "string \<Rightarrow> (string \<times> string \<times> string) option" where
  "match_keepalive t =
     (if take (length ''keepalive'') t \<noteq> ''keepalive'' then None
      else
        (let t1 = drop (length ''keepalive'') t;
             ws = takeWhile is_space t1;
             t2 = dropWhile is_space t1;
             ds = takeWhile is_digit t2;
             t3 = dropWhile is_digit t2;
             ws2 = takeWhile is_space t3;
             t4 = dropWhile is_space t3
         in if ws \<noteq> [] \<and> ds \<noteq> [] \<and> take 1 t4 = '';'' then Some (ws, ds, ws2) else None))"

fun last_keepalive :: "string \<Rightarrow> nat \<Rightarrow> (nat \<times> string \<times> string \<times> string) option" where
  "last_keepalive t 0 = map_option (\<lambda>m. (0, m)) (match_keepalive t)"
| "last_keepalive t (Suc q) =
     (case match_keepalive (drop (Suc q) t) of
        Some m \<Rightarrow> Some (Suc q, m)
      | None \<Rightarrow> last_keepalive t q)"

definition block_marker :: string where
  "block_marker = ''upstream backend {''"

definition match_upstream :: "string \<Rightarrow> (string \<times> string \<times> string) option" where
  "match_upstream s =
     (if take (length block_marker) s \<noteq> block_marker then None
      else
        (let s1 = drop (length block_marker) s;
             n = length (takeWhile (\<lambda>c. c \<noteq> CHR ''}'') s1)
         in case last_keepalive s1 n of
              None \<Rightarrow> None
            | Some (q, ws, ds, ws2) \<Rightarrow>
                Some (block_marker @ take q s1 @ ''keepalive'' @ ws, ds, ws2 @ '';'')))"

fun find_upstream :: "string \<Rightarrow> piece list" where
  "find_upstream [] = []"
| "find_upstream (c # cs) =
     (case match_upstream (c # cs) of
        None \<Rightarrow> Gap c # find_upstream cs
      | Some (a, d, b) \<Rightarrow>
          Hit a d b # find_upstream (drop (length a + length d + length b - 1) cs))"

text \<open>
  The result of \<^verbatim>\<open>re.sub\<close>: every match is replaced, by a text computed from its groups,
  and the characters outside the matches are copied.
\<close>

definition replace_hits :: "(string \<Rightarrow> string \<Rightarrow> string \<Rightarrow> string) \<Rightarrow> piece list \<Rightarrow> string" where
  "replace_hits repl ps =
     concat (map (\<lambda>p. case p of Gap c \<Rightarrow> [c] | Hit a d b \<Rightarrow> repl a d b) ps)"

text \<open>The decimal text of an integer, as an f-string writes it.\<close>

fun show_nat :: "nat \<Rightarrow> string" where
  "show_nat n =
     (if n < 10 then [''0123456789'' ! n]
      else show_nat (n div 10) @ [''0123456789'' ! (n mod 10)])"

declare show_nat.simps [simp del]

definition show_int :: "int \<Rightarrow> string" where
  "show_int i = (if i < 0 then ''-'' @ show_nat (nat (- i)) else show_nat (nat i))"

text \<open>
  Lines 39 to 51: the replacement is the fixed text \<^verbatim>\<open>name value;\<close>. Lines 53 to 64: the
  replacement is group 1, the value and group 2.
\<close>

definition set_directive :: "string \<Rightarrow> int \<Rightarrow> string \<Rightarrow> string" where
  "set_directive name v content =
     replace_hits (\<lambda>a d b. name @ '' '' @ show_int v @ '';'') (find_directives name content)"

definition set_upstream_keepalive :: "int \<Rightarrow> string \<Rightarrow> string" where
  "set_upstream_keepalive v content =
     replace_hits (\<lambda>a d b. a @ show_int v @ b) (find_upstream content)"

text \<open>
  Reading a file opened in text mode without \<^verbatim>\<open>newline\<close> argument (line 36) translates
  every line end to a line feed: CR LF and a lone CR become LF. Writing in text mode
  (line 66) writes the line separator of the platform for every line feed.
\<close>

fun read_text :: "string \<Rightarrow> string" where
  "read_text [] = []"
| "read_text [c] = [if c = CHR 0x0D then CHR 0x0A else c]"
| "read_text (c # d # cs) =
     (if c = CHR 0x0D
      then (if d = CHR 0x0A then CHR 0x0A # read_text cs else CHR 0x0A # read_text (d # cs))
      else c # read_text (d # cs))"

definition write_text :: "string \<Rightarrow> string \<Rightarrow> string" where
  "write_text sep s = concat (map (\<lambda>c. if c = CHR 0x0A then sep else [c]) s)"

text \<open>
  The file and its platform: whether the file can be opened and decoded for reading,
  whether it can be opened for writing, its text as decoded from UTF-8, and the line
  separator of the platform (\<^verbatim>\<open>os.linesep\<close>, a line feed on the POSIX systems on which
  the program starts its shell script). The function returns its boolean and the file
  as it leaves it; any exception of the body is caught and gives \<open>False\<close>.
\<close>

record conf_file =
  readable :: bool
  writable :: bool
  contents :: string
  linesep :: string

definition apply_nginx_config :: "nginx_config \<Rightarrow> conf_file \<Rightarrow> bool \<times> conf_file" where
  "apply_nginx_config cfg f =
     (if \<not> readable f then (False, f)
      else
        (let content = read_text (contents f);
             content1 = (case worker_connections cfg of
                           Some v \<Rightarrow> set_directive ''worker_connections'' v content
                         | None \<Rightarrow> content);
             content2 = (case keepalive_timeout cfg of
                           Some v \<Rightarrow> set_directive ''keepalive_timeout'' v content1
                         | None \<Rightarrow> content1);
             content3 = (case upstream_keepalive cfg of
                           Some v \<Rightarrow> set_upstream_keepalive v content2
                         | None \<Rightarrow> content2)
         in if \<not> writable f then (False, f)
            else (True, f\<lparr>contents := write_text (linesep f) content3\<rparr>)))"

section \<open>Notions used to state the properties\<close>

text \<open>
  \<open>m\<close> is the first maximal item of \<open>ys\<close> for \<open>key\<close>: every item before it has a strictly
  smaller key and no item after it has a greater one.
\<close>

definition first_max :: "('a \<Rightarrow> real) \<Rightarrow> 'a list \<Rightarrow> 'a \<Rightarrow> bool" where
  "first_max key ys m \<longleftrightarrow>
     (\<exists>pre post. ys = pre @ m # post
        \<and> (\<forall>y\<in>set pre. key y < key m) \<and> (\<forall>y\<in>set post. key y \<le> key m))"

text \<open>
  The best-so-far of the driver is the throughput and the configuration of the record
  that \<^verbatim>\<open>max(history, key=...)\<close> selects.
\<close>

definition tracks_best :: "driver_state \<Rightarrow> bool" where
  "tracks_best st \<longleftrightarrow>
     (\<exists>r. py_max (\<lambda>x. rps (metrics x)) (history st) = Some r
          \<and> best_rps st = rps (metrics r) \<and> best_config st = config r)"

text \<open>The state in which the loop stopped, however it stopped.\<close>

fun state_of :: "loop_result \<Rightarrow> driver_state" where
  "state_of (Finished st) = st"
| "state_of (Interrupted st) = st"

text \<open>
  The records that the loop has appended once the iterations \<open>js\<close> are over, read off the
  events: one record for each iteration whose load test delivered metrics.
\<close>

definition completed_records ::
  "nginx_config list \<Rightarrow> (nat \<Rightarrow> event) \<Rightarrow> nat list \<Rightarrow> iteration_record list" where
  "completed_records configs env js =
     concat (map (\<lambda>j. case env j of
                          Tested m \<Rightarrow> [\<lparr>iteration = j, config = configs ! (j - 1), metrics = m\<rparr>]
                        | Interrupt_after_record m \<Rightarrow>
                            [\<lparr>iteration = j, config = configs ! (j - 1), metrics = m\<rparr>]
                        | _ \<Rightarrow> []) js)"

text \<open>
  The state with which main enters its loop after a baseline test with the metrics \<open>m0\<close>
  (lines 498 to 507); the events that are an interruption; and what a run leaves behind
  when it is cancelled with the non-empty history \<open>h\<close>.
\<close>

definition start_state :: "metrics \<Rightarrow> driver_state" where
  "start_state m0 =
     \<lparr>history = [\<lparr>iteration = 0, config = get_default_config, metrics = m0\<rparr>],
      best_rps = rps m0, best_config = get_default_config\<rparr>"

definition is_interrupt :: "event \<Rightarrow> bool" where
  "is_interrupt e = (case e of Interrupt_before_record \<Rightarrow> True
                             | Interrupt_after_record m \<Rightarrow> True | _ \<Rightarrow> False)"

definition partial_run :: "iteration_record list \<Rightarrow> run" where
  "partial_run h =
     \<lparr>run_outcome = Cancelled, run_files = [(''optimization_history_partial.json'', h)],
      run_report = None, run_best = None, run_improvement = None, run_propagated = None\<rparr>"

text \<open>No item of the list is an aggregated row or a failure of the reader.\<close>

definition no_aggregated :: "read_item list \<Rightarrow> bool" where
  "no_aggregated items = list_all (\<lambda>it. case it of Row r \<Rightarrow> \<not> is_aggregated r | Read_error e \<Rightarrow> False) items"

text \<open>
  The shape of a match of a directive pattern: the name and a non-empty run of blanks,
  a non-empty run of digits, and the semicolon. The shape of a match of the upstream
  pattern: the opening of the block, a text without closing brace, the word keepalive
  and a non-empty run of blanks, then the digits, then blanks and the semicolon. A
  directive written with one space between its name and its number.
\<close>

definition directive_hit :: "string \<Rightarrow> piece \<Rightarrow> bool" where
  "directive_hit name p =
     (case p of
        Gap c \<Rightarrow> True
      | Hit a d b \<Rightarrow>
          (\<exists>ws. a = name @ ws \<and> ws \<noteq> [] \<and> list_all is_space ws)
          \<and> d \<noteq> [] \<and> list_all is_digit d \<and> b = '';'')"

definition upstream_hit :: "piece \<Rightarrow> bool" where
  "upstream_hit p =
     (case p of
        Gap c \<Rightarrow> True
      | Hit a d b \<Rightarrow>
          (\<exists>body ws. a = block_marker @ body @ ''keepalive'' @ ws
                     \<and> CHR ''}'' \<notin> set body \<and> ws \<noteq> [] \<and> list_all is_space ws)
          \<and> d \<noteq> [] \<and> list_all is_digit d
          \<and> (\<exists>ws2. b = ws2 @ '';'' \<and> list_all is_space ws2))"

definition single_spaced :: "string \<Rightarrow> piece \<Rightarrow> bool" where
  "single_spaced name p = (case p of Gap c \<Rightarrow> True | Hit a d b \<Rightarrow> a = name @ '' '')"

text \<open>
  What the two patterns match at the start of a text \<open>t\<close>, said without the matching
  functions. The directive pattern: \<open>t\<close> is the name, a non-empty run of blanks \<open>ws\<close>, a
  non-empty run of digits \<open>ds\<close>, a semicolon and a rest. The upstream pattern: \<open>t\<close> is the
  opening of the block, a text \<open>body\<close> without closing brace, the word keepalive, a
  non-empty run of blanks, a non-empty run of digits, a run of blanks, a semicolon and a
  rest.
\<close>

definition directive_at :: "string \<Rightarrow> string \<Rightarrow> string \<Rightarrow> string \<Rightarrow> string \<Rightarrow> bool" where
  "directive_at name ws ds rest t \<longleftrightarrow>
     t = name @ ws @ ds @ '';'' @ rest
     \<and> ws \<noteq> [] \<and> list_all is_space ws \<and> ds \<noteq> [] \<and> list_all is_digit ds"

definition upstream_at ::
  "string \<Rightarrow> string \<Rightarrow> string \<Rightarrow> string \<Rightarrow> string \<Rightarrow> string \<Rightarrow> bool" where
  "upstream_at body ws ds ws2 rest t \<longleftrightarrow>
     t = block_marker @ body @ ''keepalive'' @ ws @ ds @ ws2 @ '';'' @ rest
     \<and> CHR ''}'' \<notin> set body
     \<and> ws \<noteq> [] \<and> list_all is_space ws \<and> ds \<noteq> [] \<and> list_all is_digit ds
     \<and> list_all is_space ws2"

section \<open>Example runs\<close>

text \<open>
  A run of two requested iterations on a grid of size one in which the only candidate
  reaches the throughput of the baseline.
\<close>

definition tie_world :: world where
  "tie_world = \<lparr>world_rand = (\<lambda>i. 0),
                 world_event = (\<lambda>i. Tested (zero_metrics\<lparr>rps := 50\<rparr>))\<rparr>"

definition tie_history :: "iteration_record list" where
  "tie_history =
     [\<lparr>iteration = 0, config = get_default_config, metrics = zero_metrics\<lparr>rps := 50\<rparr>\<rparr>,
      \<lparr>iteration = 1, config = \<lparr>worker_connections = Some 512, keepalive_timeout = Some 30, upstream_keepalive = Some 16\<rparr>, metrics = zero_metrics\<lparr>rps := 50\<rparr>\<rparr>]"

text \<open>
  Worlds given by the list of their events (after the list, the run is interrupted), with
  the generator that always draws \<open>0\<close>; the candidates that main then keeps on a grid of
  size two; and a run of two candidates with the throughputs 50, 80 and 65.
\<close>

definition world_of :: "event list \<Rightarrow> world" where
  "world_of evs =
     \<lparr>world_rand = (\<lambda>i. 0),
      world_event = (\<lambda>i. if i < length evs then evs ! i else Interrupt_before_record)\<rparr>"

definition tested :: "real \<Rightarrow> event" where
  "tested v = Tested (zero_metrics\<lparr>rps := v\<rparr>)"

definition grid2 :: "nat \<Rightarrow> nginx_config" where
  "grid2 i = candidate_configs \<lparr>iterations = 5, grid_size = 2\<rparr> (\<lambda>i. 0) ! (i - 1)"

definition rec_of :: "nat \<Rightarrow> nginx_config \<Rightarrow> real \<Rightarrow> iteration_record" where
  "rec_of i c v = \<lparr>iteration = i, config = c, metrics = zero_metrics\<lparr>rps := v\<rparr>\<rparr>"

definition gain_history :: "iteration_record list" where
  "gain_history =
     [rec_of 0 get_default_config 50, rec_of 1 (grid2 1) 80, rec_of 2 (grid2 2) 65]"

definition gain_state :: driver_state where
  "gain_state = \<lparr>history = gain_history, best_rps = 80, best_config = grid2 1\<rparr>"

definition gain_report :: report where
  "gain_report =
     \<lparr>report_best_iter = rec_of 1 (grid2 1) 80, report_best_rps = 80,
      report_initial_rps = 50, report_improvement = 60, report_iterations = 3,
      report_rows = gain_history\<rparr>"

text \<open>A run in which the reset of the first candidate fails.\<close>

definition skip_history :: "iteration_record list" where
  "skip_history = [rec_of 0 get_default_config 50, rec_of 2 (grid2 2) 65]"

definition skip_state :: driver_state where
  "skip_state = \<lparr>history = skip_history, best_rps = 65, best_config = grid2 2\<rparr>"

definition skip_report :: report where
  "skip_report =
     \<lparr>report_best_iter = rec_of 2 (grid2 2) 65, report_best_rps = 65,
      report_initial_rps = 50, report_improvement = 30, report_iterations = 2,
      report_rows = skip_history\<rparr>"

text \<open>
  Rows given by their cells; the aggregated row of the example of the specification
  (with a mean latency), a row of one request type, an aggregated row with one request
  and a failure count of 401 digits, an aggregated row whose request count is not a
  number; a load test that runs for 200 seconds, and one that finds no results
  directory.
\<close>

definition row_of :: "(string \<times> string) list \<Rightarrow> row" where
  "row_of kvs = map_option Str \<circ> map_of kvs"

definition example_row :: row where
  "example_row = row_of [(''Type'', ''''), (''Name'', ''Aggregated''), (''Request Count'', ''1000''),
     (''Failure Count'', ''10''), (''Average Response Time'', ''12.5''), (''Requests/s'', ''150.5'')]"

definition get_row :: row where
  "get_row = row_of [(''Type'', ''GET''), (''Name'', ''/api/todos''), (''Request Count'', ''400''),
     (''Failure Count'', ''3''), (''Average Response Time'', ''9.25''), (''Requests/s'', ''60.5'')]"

definition slow_env :: load_env where
  "slow_env = \<lparr>launch_error = None, run_seconds = Some 200, results_dir_exists = True,
                listing_error = None, stats_files = [(1, Table [Row example_row])]\<rparr>"

definition bare_env :: load_env where
  "bare_env = \<lparr>launch_error = None, run_seconds = Some 70, results_dir_exists = False,
                listing_error = None, stats_files = []\<rparr>"

definition overflow_row :: row where
  "overflow_row = row_of [(''Type'', ''''), (''Name'', ''Aggregated''), (''Request Count'', ''1''),
     (''Failure Count'', CHR ''1'' # replicate 400 CHR ''0''),
     (''Average Response Time'', ''12.5''), (''Requests/s'', ''150.5'')]"

definition broken_row :: row where
  "broken_row = row_of [(''Type'', ''''), (''Name'', ''Aggregated''), (''Request Count'', ''N/A''),
     (''Failure Count'', ''10''), (''Average Response Time'', ''12.5''), (''Requests/s'', ''150.5'')]"

text \<open>
  A configuration file with the three directives and a keepalive directive outside the
  upstream block, a file with the line ends CR LF, and the configuration that sets only
  \<^verbatim>\<open>worker_connections\<close>.
\<close>

definition example_conf :: conf_file where
  "example_conf =
     \<lparr>readable = True, writable = True,
      contents = ''worker_processes auto; events { worker_connections 1024; } http { keepalive_timeout 65; upstream backend { server app1:5000; keepalive 32; } server { keepalive 16; } }'',
      linesep = [CHR 0x0A]\<rparr>"

definition crlf_conf :: conf_file where
  "crlf_conf =
     \<lparr>readable = True, writable = True,
      contents = ''events {'' @ [CHR 0x0D, CHR 0x0A] @ ''worker_connections 1024;'' @ [CHR 0x0D, CHR 0x0A] @ ''}'',
      linesep = [CHR 0x0A]\<rparr>"

definition only_worker_connections :: "int \<Rightarrow> nginx_config" where
  "only_worker_connections v =
     \<lparr>worker_connections = Some v, keepalive_timeout = None, upstream_keepalive = None\<rparr>"

definition all_three :: nginx_config where
  "all_three =
     \<lparr>worker_connections = Some 2048, keepalive_timeout = Some 75, upstream_keepalive = Some 64\<rparr>"

section \<open>Properties of the report generator and the search driver\<close>

lemma max_from_snoc:
  "max_from key b (xs @ [x]) =
     (if key x > key (max_from key b xs) then x else max_from key b xs)"
  by (induction xs arbitrary: b) simp_all

lemma py_max_snoc:
  "py_max key xs = Some r \<Longrightarrow>
   py_max key (xs @ [x]) = Some (if key x > key r then x else r)"
  by (cases xs) (auto simp: py_max_def max_from_snoc)

lemma first_max_single: "first_max key [b] b"
  unfolding first_max_def by (rule exI[of _ "[]"], rule exI[of _ "[]"]) simp

lemma first_max_snoc_gt:
  assumes "first_max key ys m" and "key m < key x"
  shows "first_max key (ys @ [x]) x"
proof -
  from assms(1) obtain pre post where s: "ys = pre @ m # post"
    and lo: "\<forall>y\<in>set pre. key y < key m" and hi: "\<forall>y\<in>set post. key y \<le> key m"
    unfolding first_max_def by blast
  have "\<forall>y\<in>set ys. key y < key x"
  proof
    fix y assume "y \<in> set ys"
    then have "y \<in> set pre \<or> y = m \<or> y \<in> set post" unfolding s by auto
    then show "key y < key x" using lo hi assms(2) by fastforce
  qed
  then have "ys @ [x] = ys @ x # [] \<and> (\<forall>y\<in>set ys. key y < key x)
       \<and> (\<forall>y\<in>set []. key y \<le> key x)" by simp
  then show ?thesis unfolding first_max_def by blast
qed

lemma first_max_snoc_le:
  assumes "first_max key ys m" and "key x \<le> key m"
  shows "first_max key (ys @ [x]) m"
proof -
  from assms(1) obtain pre post where s: "ys = pre @ m # post"
    and lo: "\<forall>y\<in>set pre. key y < key m" and hi: "\<forall>y\<in>set post. key y \<le> key m"
    unfolding first_max_def by blast
  have "ys @ [x] = pre @ m # (post @ [x])" using s by simp
  moreover have "\<forall>y\<in>set (post @ [x]). key y \<le> key m" using hi assms(2) by simp
  ultimately show ?thesis unfolding first_max_def using lo by blast
qed

lemma max_from_first_max: "first_max key (b # xs) (max_from key b xs)"
proof (induction xs rule: rev_induct)
  case Nil
  show ?case by (simp add: first_max_single)
next
  case (snoc x xs)
  show ?case
  proof (cases "key x > key (max_from key b xs)")
    case True
    then show ?thesis
      using first_max_snoc_gt[OF snoc True] by (simp add: max_from_snoc)
  next
    case False
    then have "key x \<le> key (max_from key b xs)" by simp
    from first_max_snoc_le[OF snoc this] show ?thesis
      using False by (simp add: max_from_snoc)
  qed
qed

lemma tracks_best_record_result:
  assumes "tracks_best st"
  shows "tracks_best (record_result i c m st)"
proof -
  from assms obtain r where r: "py_max (\<lambda>x. rps (metrics x)) (history st) = Some r"
    and b: "best_rps st = rps (metrics r)" "best_config st = config r"
    unfolding tracks_best_def by blast
  let ?new = "\<lparr>iteration = i, config = c, metrics = m\<rparr>"
  have "py_max (\<lambda>x. rps (metrics x)) (history st @ [?new]) =
          Some (if rps (metrics ?new) > rps (metrics r) then ?new else r)"
    by (rule py_max_snoc[OF r])
  then show ?thesis
    using b by (simp add: tracks_best_def record_result_def Let_def)
qed

lemma search_loop_tracks_best:
  "tracks_best st \<Longrightarrow> search_loop js configs env st = Finished st' \<Longrightarrow> tracks_best st'"
proof (induction js arbitrary: st)
  case Nil
  then show ?case by simp
next
  case (Cons i js)
  show ?case
  proof (cases "i > length configs")
    case True
    with Cons.prems show ?thesis by simp
  next
    case False
    show ?thesis
    proof (cases "env i")
      case Reset_fails
      with False Cons show ?thesis by simp
    next
      case (Tested m)
      with False Cons.prems(2)
      have "search_loop js configs env (record_result i (configs ! (i - 1)) m st) = Finished st'"
        by simp
      from Cons.IH[OF tracks_best_record_result[OF Cons.prems(1)] this] show ?thesis .
    next
      case Interrupt_before_record
      with False Cons.prems show ?thesis by simp
    next
      case (Interrupt_after_record m)
      with False Cons.prems show ?thesis by simp
    qed
  qed
qed

lemma search_loop_iterations_increase:
  "sorted_wrt (<) js \<Longrightarrow> sorted_wrt (<) (map iteration (history st)) \<Longrightarrow>
   (\<forall>j\<in>set js. \<forall>r\<in>set (history st). iteration r < j) \<Longrightarrow>
   sorted_wrt (<) (map iteration (history (state_of (search_loop js configs env st))))"
proof (induction js arbitrary: st)
  case Nil
  then show ?case by simp
next
  case (Cons i js)
  let ?new = "\<lambda>m. \<lparr>iteration = i, config = configs ! (i - 1), metrics = m\<rparr>"
  have ext: "sorted_wrt (<) (map iteration (history st @ [?new m]))" for m
    using Cons.prems(2,3) by (simp add: sorted_wrt_append)
  show ?case
  proof (cases "i > length configs")
    case True
    with Cons.prems show ?thesis by simp
  next
    case False
    show ?thesis
    proof (cases "env i")
      case Reset_fails
      have "sorted_wrt (<) (map iteration (history (state_of (search_loop js configs env st))))"
        using Cons.prems by (intro Cons.IH) auto
      with False Reset_fails show ?thesis by simp
    next
      case (Tested m)
      let ?st = "record_result i (configs ! (i - 1)) m st"
      have h: "history ?st = history st @ [?new m]"
        by (simp add: record_result_def Let_def)
      have "sorted_wrt (<) (map iteration (history (state_of (search_loop js configs env ?st))))"
      proof (rule Cons.IH)
        show "sorted_wrt (<) js" using Cons.prems(1) by simp
        show "sorted_wrt (<) (map iteration (history ?st))" unfolding h by (rule ext)
        show "\<forall>j\<in>set js. \<forall>r\<in>set (history ?st). iteration r < j"
          unfolding h using Cons.prems(1,3) by auto
      qed
      with False Tested show ?thesis by simp
    next
      case Interrupt_before_record
      with False Cons.prems show ?thesis by simp
    next
      case (Interrupt_after_record m)
      with False ext[of m] show ?thesis by simp
    qed
  qed
qed

lemma history_record_result:
  "history (record_result i c m st) = history st @ [\<lparr>iteration = i, config = c, metrics = m\<rparr>]"
  by (simp add: record_result_def Let_def)

lemma search_loop_break:
  "\<exists>j\<in>set js. j > length configs \<Longrightarrow>
   search_loop (js @ rest) configs env st = search_loop js configs env st"
proof (induction js arbitrary: st)
  case Nil
  then show ?case by simp
next
  case (Cons i js)
  show ?case
  proof (cases "i > length configs")
    case True
    then show ?thesis by simp
  next
    case False
    with Cons.prems have "\<exists>j\<in>set js. j > length configs" by auto
    then have "search_loop (js @ rest) configs env s = search_loop js configs env s" for s
      by (rule Cons.IH)
    then show ?thesis using False by (simp add: Let_def split: event.splits)
  qed
qed

lemma search_loop_append:
  "\<forall>j\<in>set js. j \<le> length configs \<Longrightarrow>
   search_loop (js @ rest) configs env st =
     (case search_loop js configs env st of
        Finished s \<Rightarrow> search_loop rest configs env s
      | Interrupted s \<Rightarrow> Interrupted s)"
proof (induction js arbitrary: st)
  case Nil
  then show ?case by simp
next
  case (Cons i js)
  then have i: "\<not> i > length configs" and js: "\<forall>j\<in>set js. j \<le> length configs" by auto
  have "search_loop (js @ rest) configs env s =
     (case search_loop js configs env s of
        Finished s' \<Rightarrow> search_loop rest configs env s'
      | Interrupted s' \<Rightarrow> Interrupted s')" for s
    by (rule Cons.IH[OF js])
  then show ?case using i by (simp add: Let_def split: event.splits)
qed

lemma search_loop_completed:
  "\<forall>j\<in>set js. j \<le> length configs \<and> (env j = Reset_fails \<or> (\<exists>m. env j = Tested m)) \<Longrightarrow>
   \<exists>s. search_loop js configs env st = Finished s
      \<and> history s = history st @ completed_records configs env js"
proof (induction js arbitrary: st)
  case Nil
  then show ?case by (simp add: completed_records_def)
next
  case (Cons i js)
  then have i: "\<not> i > length configs"
    and ev: "env i = Reset_fails \<or> (\<exists>m. env i = Tested m)"
    and js: "\<forall>j\<in>set js. j \<le> length configs \<and> (env j = Reset_fails \<or> (\<exists>m. env j = Tested m))"
    by auto
  from ev show ?case
  proof
    assume r: "env i = Reset_fails"
    from Cons.IH[OF js, of st] show ?thesis
      using i r by (simp add: completed_records_def)
  next
    assume "\<exists>m. env i = Tested m"
    then obtain m where t: "env i = Tested m" by blast
    from Cons.IH[OF js, of "record_result i (configs ! (i - 1)) m st"] show ?thesis
      using i t by (simp add: completed_records_def history_record_result)
  qed
qed

lemma best_rps_record_result_zero:
  "0 \<le> best_rps st \<Longrightarrow> rps m = 0 \<Longrightarrow>
   best_rps (record_result i c m st) = best_rps st
   \<and> best_config (record_result i c m st) = best_config st"
  by (simp add: record_result_def Let_def)

lemma best_rps_record_result_nonneg:
  "0 \<le> best_rps st \<Longrightarrow> 0 \<le> best_rps (record_result i c m st)"
  by (simp add: record_result_def Let_def)

lemma search_loop_best_nonneg:
  "0 \<le> best_rps st \<Longrightarrow> 0 \<le> best_rps (state_of (search_loop js configs env st))"
proof (induction js arbitrary: st)
  case Nil
  then show ?case by simp
next
  case (Cons i js)
  have "0 \<le> best_rps (state_of (search_loop js configs env (record_result i c m st)))" for c m
    by (rule Cons.IH[OF best_rps_record_result_nonneg[OF Cons.prems]])
  moreover have "0 \<le> best_rps (state_of (search_loop js configs env st))"
    by (rule Cons.IH[OF Cons.prems])
  ultimately show ?case using Cons.prems by (simp add: Let_def split: event.splits)
qed

lemma search_loop_history_extends:
  "\<exists>ext. history (state_of (search_loop js configs env st)) = history st @ ext"
proof (induction js arbitrary: st)
  case Nil
  then show ?case by simp
next
  case (Cons i js)
  have a: "\<exists>ext. history (state_of (search_loop js configs env st)) = history st @ ext"
    by (rule Cons.IH)
  have b: "\<exists>ext. history (state_of (search_loop js configs env (record_result i c m st)))
                = history st @ ext" for c m
    using Cons.IH[of "record_result i c m st"] by (auto simp: history_record_result)
  show ?case using a b by (simp add: Let_def split: event.splits)
qed

lemma search_loop_history_sources:
  "r \<in> set (history (state_of (search_loop js configs env st))) \<Longrightarrow>
   r \<in> set (history st) \<or> env (iteration r) \<noteq> Reset_fails"
proof (induction js arbitrary: st)
  case Nil
  then show ?case by simp
next
  case (Cons i js)
  show ?case
  proof (cases "i > length configs")
    case True
    with Cons.prems show ?thesis by simp
  next
    case False
    show ?thesis
    proof (cases "env i")
      case Reset_fails
      with False Cons show ?thesis by simp
    next
      case (Tested m)
      with False Cons.prems
      have "r \<in> set (history (state_of (search_loop js configs env
               (record_result i (configs ! (i - 1)) m st))))" by simp
      from Cons.IH[OF this] show ?thesis
        using Tested by (auto simp: history_record_result)
    next
      case Interrupt_before_record
      with False Cons.prems show ?thesis by simp
    next
      case (Interrupt_after_record m)
      with False Cons.prems show ?thesis by auto
    qed
  qed
qed

lemma generate_grid_configs_1: "generate_grid_configs 1 = [\<lparr>worker_connections = Some 512, keepalive_timeout = Some 30, upstream_keepalive = Some 16\<rparr>]"
  by (simp add: generate_grid_configs_def wc_values_def kt_values_def uk_values_def py_prefix_def py_int_def)

lemma candidate_configs_tie: "candidate_configs \<lparr>iterations = 2, grid_size = 1\<rparr> (\<lambda>i. 0) = [\<lparr>worker_connections = Some 512, keepalive_timeout = Some 30, upstream_keepalive = Some 16\<rparr>]"
  by (simp add: candidate_configs_def generate_grid_configs_1 shuffle_def)

lemma main_try_tie: "main_try \<lparr>iterations = 2, grid_size = 1\<rparr> tie_world =
   Ran_through \<lparr>history = tie_history, best_rps = 50, best_config = get_default_config\<rparr> 0
     \<lparr>report_best_iter = hd tie_history, report_best_rps = 50, report_initial_rps = 50,
      report_improvement = 0, report_iterations = 2, report_rows = tie_history\<rparr>"
  by (simp add: main_try_def candidate_configs_tie tie_world_def upt_conv_Cons record_result_def zero_metrics_def generate_report_def py_max_def tie_history_def Let_def)

text \<open>
  C1. When main runs to its end, the best result it tracked is the throughput and the
  configuration of one record \<open>r\<close> of the history: every record before \<open>r\<close> has a strictly
  smaller throughput and a smaller iteration index, no record after \<open>r\<close> has a greater
  throughput and each has a greater iteration index (so \<open>r\<close> has the maximum throughput and,
  among the records that share it, the smallest iteration index), and \<open>r\<close> is the record that
  the report generator selects with \<^verbatim>\<open>max(history, key=...)\<close>.
\<close>

theorem best_result_is_first_maximum:
  assumes "main_try a w = Ran_through st imp rep"
  shows "\<exists>pre r post. history st = pre @ r # post
      \<and> best_rps st = rps (metrics r) \<and> best_config st = config r
      \<and> report_best_iter rep = r
      \<and> (\<forall>x\<in>set pre. rps (metrics x) < rps (metrics r) \<and> iteration x < iteration r)
      \<and> (\<forall>x\<in>set post. rps (metrics x) \<le> rps (metrics r) \<and> iteration r < iteration x)"
proof -
  let ?key = "\<lambda>x. rps (metrics x)"
  from assms obtain m0 where ev: "world_event w 0 = Tested m0"
    by (cases "world_event w 0") (simp_all add: main_try_def Let_def)
  let ?r0 = "\<lparr>iteration = 0, config = get_default_config, metrics = m0\<rparr>"
  let ?st0 = "\<lparr>history = [?r0], best_rps = rps m0, best_config = get_default_config\<rparr>"
  let ?js = "[1..<Suc (nat (iterations a))]"
  let ?cs = "candidate_configs a (world_rand w)"
  from assms ev have fin: "search_loop ?js ?cs (world_event w) ?st0 = Finished st"
    and rep: "generate_report (history st) = Inr rep"
    by (auto simp: main_try_def Let_def split: loop_result.splits sum.splits)
  have "tracks_best ?st0" by (simp add: tracks_best_def py_max_def)
  from search_loop_tracks_best[OF this fin] obtain r
    where r: "py_max ?key (history st) = Some r"
      and b: "best_rps st = rps (metrics r)" "best_config st = config r"
    unfolding tracks_best_def by blast
  from rep r have rb: "report_best_iter rep = r"
    by (auto simp: generate_report_def Let_def)
  from r have "first_max ?key (history st) r"
    by (cases "history st") (auto simp: py_max_def max_from_first_max)
  then obtain pre post where s: "history st = pre @ r # post"
    and lo: "\<forall>x\<in>set pre. ?key x < ?key r" and hi: "\<forall>x\<in>set post. ?key x \<le> ?key r"
    unfolding first_max_def by blast
  have "sorted_wrt (<) (map iteration (history (state_of (search_loop ?js ?cs (world_event w) ?st0))))"
  proof (rule search_loop_iterations_increase)
    show "sorted_wrt (<) ?js" by (rule sorted_wrt_upt)
    show "sorted_wrt (<) (map iteration (history ?st0))" by simp
    show "\<forall>j\<in>set ?js. \<forall>r\<in>set (history ?st0). iteration r < j" by auto
  qed
  then have "sorted_wrt (<) (map iteration (pre @ r # post))"
    using fin s by simp
  then have "(\<forall>x\<in>set pre. iteration x < iteration r) \<and> (\<forall>x\<in>set post. iteration r < iteration x)"
    by (auto simp: sorted_wrt_append)
  with s b rb lo hi show ?thesis by blast
qed

theorem best_result_is_first_maximum_witness:
  "main_try \<lparr>iterations = 2, grid_size = 1\<rparr> tie_world =
     Ran_through \<lparr>history = tie_history, best_rps = 50, best_config = get_default_config\<rparr> 0
       \<lparr>report_best_iter = hd tie_history, report_best_rps = 50, report_initial_rps = 50,
        report_improvement = 0, report_iterations = 2, report_rows = tie_history\<rparr>
   \<and> (\<exists>pre r post. tie_history = pre @ r # post
        \<and> 50 = rps (metrics r) \<and> get_default_config = config r \<and> hd tie_history = r
        \<and> (\<forall>x\<in>set pre. rps (metrics x) < rps (metrics r) \<and> iteration x < iteration r)
        \<and> (\<forall>x\<in>set post. rps (metrics x) \<le> rps (metrics r) \<and> iteration r < iteration x))"
  using best_result_is_first_maximum[OF main_try_tie] main_try_tie by simp

lemma max_from_Max:
  "key (max_from key b xs) = Max (key ` set (b # xs))"
proof -
  have "first_max key (b # xs) (max_from key b xs)" by (rule max_from_first_max)
  then obtain pre post where s: "b # xs = pre @ max_from key b xs # post"
    and lo: "\<forall>y\<in>set pre. key y < key (max_from key b xs)"
    and hi: "\<forall>y\<in>set post. key y \<le> key (max_from key b xs)"
    unfolding first_max_def by blast
  have "Max (key ` set (b # xs)) = key (max_from key b xs)"
  proof (rule Max_eqI)
    show "finite (key ` set (b # xs))" by simp
    show "key (max_from key b xs) \<in> key ` set (b # xs)" unfolding s by simp
    fix v assume "v \<in> key ` set (b # xs)"
    then obtain y where y: "y \<in> set (pre @ max_from key b xs # post)" "v = key y"
      unfolding s by blast
    then have "y \<in> set pre \<or> y = max_from key b xs \<or> y \<in> set post" by auto
    then show "v \<le> key (max_from key b xs)" using lo hi y(2) by fastforce
  qed
  then show ?thesis by simp
qed

lemma generate_report_nonempty:
  "generate_report (h # hs) =
     Inr \<lparr>report_best_iter = max_from (\<lambda>x. rps (metrics x)) h hs,
          report_best_rps = rps (metrics (max_from (\<lambda>x. rps (metrics x)) h hs)),
          report_initial_rps = rps (metrics h),
          report_improvement =
            (if rps (metrics h) > 0
             then ((rps (metrics (max_from (\<lambda>x. rps (metrics x)) h hs)) - rps (metrics h))
                     / rps (metrics h)) * 100
             else 0),
          report_iterations = length (h # hs), report_rows = h # hs\<rparr>"
  by (simp add: generate_report_def py_max_def Let_def)

lemma main_try_ran_through:
  assumes "main_try a w = Ran_through st imp rep"
  shows "\<exists>m0. world_event w 0 = Tested m0
     \<and> search_loop [1..<Suc (nat (iterations a))] (candidate_configs a (world_rand w))
          (world_event w)
          \<lparr>history = [\<lparr>iteration = 0, config = get_default_config, metrics = m0\<rparr>],
           best_rps = rps m0, best_config = get_default_config\<rparr> = Finished st
     \<and> imp = (if rps m0 > 0 then ((best_rps st - rps m0) / rps m0) * 100 else 0)
     \<and> generate_report (history st) = Inr rep"
proof -
  from assms obtain m0 where ev: "world_event w 0 = Tested m0"
    by (cases "world_event w 0") (simp_all add: main_try_def Let_def)
  with assms show ?thesis
    by (auto simp: main_try_def Let_def split: loop_result.splits sum.splits)
qed

text \<open>
  C2. A history of three records with the throughputs 50, 80 and 65 has the second record
  as its best result and an improvement of 60 percent. For every non-empty history the
  report generator computes the improvement \<open>(best - initial) / initial * 100\<close> of the
  maximum throughput over the throughput of the first record when the latter is
  positive, and 0 otherwise; main logs the same figure from its best-so-far and the
  baseline throughput.
\<close>

theorem improvement_over_baseline:
  "(rps (metrics r0) = 50 \<and> rps (metrics r1) = 80 \<and> rps (metrics r2) = 65 \<longrightarrow>
      (\<exists>rep. generate_report [r0, r1, r2] = Inr rep \<and> report_best_iter rep = r1
            \<and> report_best_rps rep = 80 \<and> report_improvement rep = 60))
   \<and> (\<exists>rep. generate_report (h # hs) = Inr rep
         \<and> report_initial_rps rep = rps (metrics h)
         \<and> report_best_rps rep = Max ((\<lambda>x. rps (metrics x)) ` set (h # hs))
         \<and> report_improvement rep =
             (if rps (metrics h) > 0
              then ((report_best_rps rep - rps (metrics h)) / rps (metrics h)) * 100 else 0))
   \<and> (main_try a w = Ran_through st imp rep' \<longrightarrow>
        (\<exists>m0. world_event w 0 = Tested m0
           \<and> imp = (if rps m0 > 0 then ((best_rps st - rps m0) / rps m0) * 100 else 0)
           \<and> imp = report_improvement rep'))"
proof (intro conjI impI)
  assume "rps (metrics r0) = 50 \<and> rps (metrics r1) = 80 \<and> rps (metrics r2) = 65"
  then show "\<exists>rep. generate_report [r0, r1, r2] = Inr rep \<and> report_best_iter rep = r1
            \<and> report_best_rps rep = 80 \<and> report_improvement rep = 60"
    by (simp add: generate_report_nonempty)
next
  show "\<exists>rep. generate_report (h # hs) = Inr rep
         \<and> report_initial_rps rep = rps (metrics h)
         \<and> report_best_rps rep = Max ((\<lambda>x. rps (metrics x)) ` set (h # hs))
         \<and> report_improvement rep =
             (if rps (metrics h) > 0
              then ((report_best_rps rep - rps (metrics h)) / rps (metrics h)) * 100 else 0)"
    using max_from_Max[of "\<lambda>x. rps (metrics x)" h hs]
    by (simp add: generate_report_nonempty)
next
  assume run: "main_try a w = Ran_through st imp rep'"
  from main_try_ran_through[OF run] obtain m0 where ev: "world_event w 0 = Tested m0"
    and fin: "search_loop [1..<Suc (nat (iterations a))] (candidate_configs a (world_rand w))
          (world_event w)
          \<lparr>history = [\<lparr>iteration = 0, config = get_default_config, metrics = m0\<rparr>],
           best_rps = rps m0, best_config = get_default_config\<rparr> = Finished st"
    and imp: "imp = (if rps m0 > 0 then ((best_rps st - rps m0) / rps m0) * 100 else 0)"
    and rep: "generate_report (history st) = Inr rep'"
    by blast
  let ?r0 = "\<lparr>iteration = 0, config = get_default_config, metrics = m0\<rparr>"
  let ?st0 = "\<lparr>history = [?r0], best_rps = rps m0, best_config = get_default_config\<rparr>"
  have "tracks_best ?st0" by (simp add: tracks_best_def py_max_def)
  from search_loop_tracks_best[OF this fin] obtain r
    where r: "py_max (\<lambda>x. rps (metrics x)) (history st) = Some r"
      and b: "best_rps st = rps (metrics r)"
    unfolding tracks_best_def by blast
  from search_loop_history_extends[of "[1..<Suc (nat (iterations a))]"
        "candidate_configs a (world_rand w)" "world_event w" ?st0]
  obtain ext where h: "history st = ?r0 # ext" using fin by auto
  from r have r': "r = max_from (\<lambda>x. rps (metrics x)) ?r0 ext"
    unfolding h by (simp add: py_max_def)
  from rep have "report_improvement rep' =
      (if rps m0 > 0 then ((rps (metrics r) - rps m0) / rps m0) * 100 else 0)"
    unfolding h generate_report_nonempty r' by auto
  with imp b have "imp = report_improvement rep'" by simp
  with ev imp show "\<exists>m0. world_event w 0 = Tested m0
           \<and> imp = (if rps m0 > 0 then ((best_rps st - rps m0) / rps m0) * 100 else 0)
           \<and> imp = report_improvement rep'" by blast
qed

lemma generate_grid_configs_2: "generate_grid_configs 2 =
  [\<lparr>worker_connections = Some 512, keepalive_timeout = Some 30, upstream_keepalive = Some 16\<rparr>,
   \<lparr>worker_connections = Some 512, keepalive_timeout = Some 30, upstream_keepalive = Some 32\<rparr>,
   \<lparr>worker_connections = Some 512, keepalive_timeout = Some 60, upstream_keepalive = Some 16\<rparr>,
   \<lparr>worker_connections = Some 512, keepalive_timeout = Some 60, upstream_keepalive = Some 32\<rparr>,
   \<lparr>worker_connections = Some 1024, keepalive_timeout = Some 30, upstream_keepalive = Some 16\<rparr>,
   \<lparr>worker_connections = Some 1024, keepalive_timeout = Some 30, upstream_keepalive = Some 32\<rparr>,
   \<lparr>worker_connections = Some 1024, keepalive_timeout = Some 60, upstream_keepalive = Some 16\<rparr>,
   \<lparr>worker_connections = Some 1024, keepalive_timeout = Some 60, upstream_keepalive = Some 32\<rparr>]"
  by (simp add: generate_grid_configs_def wc_values_def kt_values_def uk_values_def
        py_prefix_def py_int_def)

lemma shuffle_first_draws:
  "shuffle (\<lambda>i. 0) [a0, a1, a2, a3, a4, a5, a6, a7] = [a1, a2, a3, a4, a5, a6, a7, a0]"
  by (simp add: shuffle_def eval_nat_numeral)

lemma candidate_configs_5_2:
  "candidate_configs \<lparr>iterations = 5, grid_size = 2\<rparr> (\<lambda>i. 0) =
  [\<lparr>worker_connections = Some 512, keepalive_timeout = Some 30, upstream_keepalive = Some 32\<rparr>,
   \<lparr>worker_connections = Some 512, keepalive_timeout = Some 60, upstream_keepalive = Some 16\<rparr>,
   \<lparr>worker_connections = Some 512, keepalive_timeout = Some 60, upstream_keepalive = Some 32\<rparr>,
   \<lparr>worker_connections = Some 1024, keepalive_timeout = Some 30, upstream_keepalive = Some 16\<rparr>,
   \<lparr>worker_connections = Some 1024, keepalive_timeout = Some 30, upstream_keepalive = Some 32\<rparr>]"
  by (simp add: candidate_configs_def generate_grid_configs_2 shuffle_first_draws py_prefix_def)

lemma candidate_configs_2_2:
  "candidate_configs \<lparr>iterations = 2, grid_size = 2\<rparr> (\<lambda>i. 0) = [grid2 1, grid2 2]"
  by (simp add: candidate_configs_def generate_grid_configs_2 shuffle_first_draws py_prefix_def
        grid2_def)

lemma main_try_gain:
  "main_try \<lparr>iterations = 2, grid_size = 2\<rparr> (world_of [tested 50, tested 80, tested 65]) =
     Ran_through gain_state 60 gain_report"
  by (simp add: main_try_def candidate_configs_2_2 world_of_def tested_def upt_conv_Cons
        record_result_def zero_metrics_def generate_report_def py_max_def rec_of_def Let_def
        gain_state_def gain_report_def gain_history_def)

theorem improvement_over_baseline_witness:
  "(\<exists>rep. generate_report gain_history = Inr rep
        \<and> report_best_iter rep = rec_of 1 (grid2 1) 80 \<and> report_best_rps rep = 80
        \<and> report_improvement rep = 60)
   \<and> (\<exists>m0. world_event (world_of [tested 50, tested 80, tested 65]) 0 = Tested m0
        \<and> (60::real) = (if rps m0 > 0 then ((best_rps gain_state - rps m0) / rps m0) * 100 else 0)
        \<and> 60 = report_improvement gain_report)"
proof -
  note t = improvement_over_baseline[of "rec_of 0 get_default_config 50" "rec_of 1 (grid2 1) 80"
      "rec_of 2 (grid2 2) 65" "rec_of 0 get_default_config 50" "[]"
      "\<lparr>iterations = 2, grid_size = 2\<rparr>" "world_of [tested 50, tested 80, tested 65]"
      gain_state 60 gain_report]
  have a: "rps (metrics (rec_of 0 get_default_config 50)) = 50
      \<and> rps (metrics (rec_of 1 (grid2 1) 80)) = 80 \<and> rps (metrics (rec_of 2 (grid2 2) 65)) = 65"
    by (simp add: rec_of_def)
  from t a have "\<exists>rep. generate_report [rec_of 0 get_default_config 50, rec_of 1 (grid2 1) 80,
                           rec_of 2 (grid2 2) 65] = Inr rep
        \<and> report_best_iter rep = rec_of 1 (grid2 1) 80 \<and> report_best_rps rep = 80
        \<and> report_improvement rep = 60" by blast
  then have 1: "\<exists>rep. generate_report gain_history = Inr rep
        \<and> report_best_iter rep = rec_of 1 (grid2 1) 80 \<and> report_best_rps rep = 80
        \<and> report_improvement rep = 60" by (simp add: gain_history_def)
  from t main_try_gain
  have 2: "\<exists>m0. world_event (world_of [tested 50, tested 80, tested 65]) 0 = Tested m0
     \<and> (60::real) = (if rps m0 > 0 then ((best_rps gain_state - rps m0) / rps m0) * 100 else 0)
     \<and> 60 = report_improvement gain_report"
    by blast
  from 1 2 show ?thesis by blast
qed

text \<open>
  C7. An iteration \<open>i\<close> of the loop whose reset fails leaves the state of the driver (the
  history, the best throughput and the best configuration) as it was and the loop goes
  on with the iterations after it: the loop over \<open>i\<close> and the rest is the loop over the
  rest, also after any iterations \<open>js\<close> before \<open>i\<close>. In a run of main that reaches its
  end, the history has no record for an iteration whose reset failed.
\<close>

theorem failed_reset_skips_candidate:
  "(env i = Reset_fails \<and> i \<le> length configs \<longrightarrow>
      search_loop (i # rest) configs env st = search_loop rest configs env st
      \<and> (\<forall>js. (\<forall>j\<in>set js. j \<le> length configs) \<longrightarrow>
            search_loop (js @ i # rest) configs env st = search_loop (js @ rest) configs env st))
   \<and> (main_try a w = Ran_through st' imp rep \<and> world_event w k = Reset_fails \<longrightarrow>
        (\<forall>r\<in>set (history st'). iteration r \<noteq> k))"
proof (intro conjI impI allI)
  assume "env i = Reset_fails \<and> i \<le> length configs"
  then show "search_loop (i # rest) configs env st = search_loop rest configs env st"
    by simp
next
  fix js
  assume a: "env i = Reset_fails \<and> i \<le> length configs"
    and le: "\<forall>j\<in>set js. j \<le> length configs"
  from a have step: "search_loop (i # rest) configs env s = search_loop rest configs env s" for s
    by simp
  show "search_loop (js @ i # rest) configs env st = search_loop (js @ rest) configs env st"
    by (simp only: search_loop_append[OF le] step)
next
  assume a: "main_try a w = Ran_through st' imp rep \<and> world_event w k = Reset_fails"
  from main_try_ran_through[of a w st' imp rep] a obtain m0
    where ev: "world_event w 0 = Tested m0"
     and fin: "search_loop [1..<Suc (nat (iterations a))] (candidate_configs a (world_rand w))
          (world_event w)
          \<lparr>history = [\<lparr>iteration = 0, config = get_default_config, metrics = m0\<rparr>],
           best_rps = rps m0, best_config = get_default_config\<rparr> = Finished st'"
    by blast
  show "\<forall>r\<in>set (history st'). iteration r \<noteq> k"
  proof
    fix r assume "r \<in> set (history st')"
    then have "r \<in> set (history (state_of (search_loop [1..<Suc (nat (iterations a))]
          (candidate_configs a (world_rand w)) (world_event w)
          \<lparr>history = [\<lparr>iteration = 0, config = get_default_config, metrics = m0\<rparr>],
           best_rps = rps m0, best_config = get_default_config\<rparr>)))"
      by (simp only: fin state_of.simps)
    from search_loop_history_sources[OF this]
    show "iteration r \<noteq> k" using a ev by auto
  qed
qed

lemma main_try_skip:
  "main_try \<lparr>iterations = 2, grid_size = 2\<rparr> (world_of [tested 50, Reset_fails, tested 65]) =
     Ran_through skip_state 30 skip_report"
  by (simp add: main_try_def candidate_configs_2_2 world_of_def tested_def upt_conv_Cons
        record_result_def zero_metrics_def generate_report_def py_max_def rec_of_def Let_def
        skip_state_def skip_report_def skip_history_def)

theorem failed_reset_skips_candidate_witness:
  "search_loop [1, 2] [grid2 1, grid2 2] (world_event (world_of [tested 50, Reset_fails, tested 65]))
       \<lparr>history = [rec_of 0 get_default_config 50], best_rps = 50,
        best_config = get_default_config\<rparr>
     = search_loop [2] [grid2 1, grid2 2] (world_event (world_of [tested 50, Reset_fails, tested 65]))
       \<lparr>history = [rec_of 0 get_default_config 50], best_rps = 50,
        best_config = get_default_config\<rparr>
   \<and> 1 \<notin> iteration ` set (history skip_state)"
proof -
  let ?env = "world_event (world_of [tested 50, Reset_fails, tested 65])"
  note t = failed_reset_skips_candidate[of ?env 1 "[grid2 1, grid2 2]" "[2]"
      "\<lparr>history = [rec_of 0 get_default_config 50], best_rps = 50,
        best_config = get_default_config\<rparr>"
      "\<lparr>iterations = 2, grid_size = 2\<rparr>" "world_of [tested 50, Reset_fails, tested 65]"
      skip_state 30 skip_report 1]
  have a: "?env 1 = Reset_fails \<and> 1 \<le> length [grid2 1, grid2 2]"
    by (simp add: world_of_def)
  from t a have 1: "search_loop [1, 2] [grid2 1, grid2 2] ?env
       \<lparr>history = [rec_of 0 get_default_config 50], best_rps = 50,
        best_config = get_default_config\<rparr>
     = search_loop [2] [grid2 1, grid2 2] ?env
       \<lparr>history = [rec_of 0 get_default_config 50], best_rps = 50,
        best_config = get_default_config\<rparr>" by blast
  from t a main_try_skip have "\<forall>r\<in>set (history skip_state). iteration r \<noteq> 1"
    by blast
  then have 2: "1 \<notin> iteration ` set (history skip_state)" by auto
  from 1 2 show ?thesis by blast
qed

lemma completed_records_append:
  "completed_records configs env (js @ ks) =
     completed_records configs env js @ completed_records configs env ks"
  by (simp add: completed_records_def)

lemma search_loop_interrupted_at:
  assumes js: "\<forall>j\<in>set js. j \<le> length configs \<and> (env j = Reset_fails \<or> (\<exists>m. env j = Tested m))"
    and k: "k \<le> length configs" and ev: "is_interrupt (env k)"
  shows "\<exists>s. search_loop (js @ k # rest) configs env st = Interrupted s
     \<and> history s = history st @ completed_records configs env (js @ [k])"
proof -
  from search_loop_completed[OF js, of st] obtain s
    where s: "search_loop js configs env st = Finished s"
      and h: "history s = history st @ completed_records configs env js" by blast
  from js have le: "\<forall>j\<in>set js. j \<le> length configs" by blast
  have e: "search_loop (js @ k # rest) configs env st = search_loop (k # rest) configs env s"
    by (simp only: search_loop_append[OF le] s loop_result.case)
  from ev show ?thesis
  proof (cases "env k")
    case Interrupt_before_record
    then have "search_loop (k # rest) configs env s = Interrupted s" using k by simp
    moreover have "completed_records configs env [k] = []"
      using Interrupt_before_record by (simp add: completed_records_def)
    ultimately show ?thesis using e h by (simp add: completed_records_append)
  next
    case (Interrupt_after_record m)
    let ?r = "\<lparr>iteration = k, config = configs ! (k - 1), metrics = m\<rparr>"
    have "search_loop (k # rest) configs env s = Interrupted (s\<lparr>history := history s @ [?r]\<rparr>)"
      using k Interrupt_after_record by simp
    moreover have "completed_records configs env [k] = [?r]"
      using Interrupt_after_record by (simp add: completed_records_def)
    ultimately show ?thesis using e h by (simp add: completed_records_append)
  qed (simp_all add: is_interrupt_def)
qed

lemma upt_split_at:
  assumes "1 \<le> k" and "k \<le> n"
  shows "[1..<Suc n] = [1..<k] @ k # [Suc k..<Suc n]"
proof -
  have "[1..<k + (Suc n - k)] = [1..<k] @ [k..<k + (Suc n - k)]"
    using assms(1) by (rule upt_add_eq_append)
  moreover have "k + (Suc n - k) = Suc n" using assms(2) by simp
  ultimately have "[1..<Suc n] = [1..<k] @ [k..<Suc n]" by simp
  moreover have "[k..<Suc n] = k # [Suc k..<Suc n]"
    using assms(2) by (intro upt_conv_Cons) simp
  ultimately show ?thesis by simp
qed

text \<open>
  C8. When the baseline has been tested, the iterations before \<open>k\<close> ran without an
  interruption and iteration \<open>k\<close> is interrupted, main returns normally, having written one
  file, \<^verbatim>\<open>optimization_history_partial.json\<close>, whose content is the baseline record followed
  by the records of the iterations completed up to the interruption; it writes no
  \<^verbatim>\<open>optimization_history.json\<close>, generates no report and lets no signal out.
\<close>

theorem interruption_saves_partial_history:
  assumes "world_event w 0 = Tested m0"
    and "1 \<le> k" and "k \<le> nat (iterations a)"
    and "k \<le> length (candidate_configs a (world_rand w))"
    and "\<forall>j\<in>{1..<k}. world_event w j = Reset_fails \<or> (\<exists>m. world_event w j = Tested m)"
    and "is_interrupt (world_event w k)"
  shows "main a w =
           partial_run (\<lparr>iteration = 0, config = get_default_config, metrics = m0\<rparr>
              # completed_records (candidate_configs a (world_rand w)) (world_event w) [1..<Suc k])
       \<and> ''optimization_history.json'' \<notin> fst ` set (run_files (main a w))
       \<and> run_report (main a w) = None \<and> run_propagated (main a w) = None"
proof -
  let ?cs = "candidate_configs a (world_rand w)"
  let ?env = "world_event w"
  let ?n = "nat (iterations a)"
  let ?r0 = "\<lparr>iteration = 0, config = get_default_config, metrics = m0\<rparr>"
  let ?st0 = "\<lparr>history = [?r0], best_rps = rps m0, best_config = get_default_config\<rparr>"
  have js: "\<forall>j\<in>set [1..<k]. j \<le> length ?cs \<and> (?env j = Reset_fails \<or> (\<exists>m. ?env j = Tested m))"
    using assms(4,5) by auto
  from search_loop_interrupted_at[OF js assms(4) assms(6), of "[Suc k..<Suc ?n]" ?st0]
  obtain s where s: "search_loop ([1..<k] @ k # [Suc k..<Suc ?n]) ?cs ?env ?st0 = Interrupted s"
    and h: "history s = history ?st0 @ completed_records ?cs ?env ([1..<k] @ [k])" by blast
  have u: "[1..<k] @ [k] = [1..<Suc k]" using assms(2) by simp
  have "search_loop [1..<Suc ?n] ?cs ?env ?st0 = Interrupted s"
    using s upt_split_at[OF assms(2,3)] by simp
  then have t: "main_try a w = Raised KeyboardInterrupt (history s)"
    using assms(1) by (simp add: main_try_def Let_def)
  have h': "history s = ?r0 # completed_records ?cs ?env [1..<Suc k]"
    using h unfolding u by simp
  have m: "main a w = partial_run (?r0 # completed_records ?cs ?env [1..<Suc k])"
    using t h' by (simp add: main_def partial_run_def)
  show ?thesis unfolding m by (simp add: partial_run_def)
qed

lemma completed_records_gain:
  "\<lparr>iteration = 0, config = get_default_config, metrics = zero_metrics\<lparr>rps := 50\<rparr>\<rparr>
     # completed_records
         (candidate_configs \<lparr>iterations = 5, grid_size = 2\<rparr>
            (world_rand (world_of [tested 50, tested 80, tested 65])))
         (world_event (world_of [tested 50, tested 80, tested 65])) [1..<Suc 3]
   = gain_history"
  by (simp add: completed_records_def world_of_def tested_def upt_conv_Cons gain_history_def
        rec_of_def grid2_def)

theorem interruption_saves_partial_history_witness:
  "main \<lparr>iterations = 5, grid_size = 2\<rparr> (world_of [tested 50, tested 80, tested 65])
     = partial_run gain_history
   \<and> length gain_history = 3
   \<and> run_report (main \<lparr>iterations = 5, grid_size = 2\<rparr>
                   (world_of [tested 50, tested 80, tested 65])) = None
   \<and> run_propagated (main \<lparr>iterations = 5, grid_size = 2\<rparr>
                   (world_of [tested 50, tested 80, tested 65])) = None"
proof -
  let ?a = "\<lparr>iterations = 5, grid_size = 2\<rparr>"
  let ?w = "world_of [tested 50, tested 80, tested 65]"
  have 1: "world_event ?w 0 = Tested (zero_metrics\<lparr>rps := 50\<rparr>)"
    by (simp add: world_of_def tested_def)
  have 2: "(1::nat) \<le> 3" by simp
  have 3: "3 \<le> nat (iterations ?a)" by simp
  have 4: "3 \<le> length (candidate_configs ?a (world_rand ?w))"
    by (simp add: world_of_def candidate_configs_5_2)
  have 5: "\<forall>j\<in>{1..<3}. world_event ?w j = Reset_fails \<or> (\<exists>m. world_event ?w j = Tested m)"
  proof
    fix j :: nat assume "j \<in> {1..<3}"
    then have "j = 1 \<or> j = 2" by auto
    then show "world_event ?w j = Reset_fails \<or> (\<exists>m. world_event ?w j = Tested m)"
      by (auto simp: world_of_def tested_def)
  qed
  have 6: "is_interrupt (world_event ?w 3)"
    by (simp add: world_of_def is_interrupt_def)
  note t = interruption_saves_partial_history[OF 1 2 3 4 5 6, unfolded completed_records_gain]
  have "length gain_history = 3" by (simp add: gain_history_def)
  with t show ?thesis by blast
qed

text \<open>
  C10. When the baseline throughput is not negative, the best throughput is not negative
  after any iterations \<open>js\<close> of the loop, and a following iteration \<open>i\<close> whose load test
  gives the throughput 0 leaves the best throughput and the best configuration as they
  were; in any state with a non-negative best throughput, recording metrics with the
  throughput 0 changes neither.
\<close>

theorem zero_throughput_never_best:
  assumes "0 \<le> rps m0"
  shows "0 \<le> best_rps (state_of (search_loop js configs env (start_state m0)))
       \<and> (env i = Tested m \<and> rps m = 0 \<longrightarrow>
            best_rps (state_of (search_loop (js @ [i]) configs env (start_state m0)))
              = best_rps (state_of (search_loop js configs env (start_state m0)))
          \<and> best_config (state_of (search_loop (js @ [i]) configs env (start_state m0)))
              = best_config (state_of (search_loop js configs env (start_state m0))))
       \<and> (0 \<le> best_rps st \<and> rps m = 0 \<longrightarrow>
            best_rps (record_result i c m st) = best_rps st
          \<and> best_config (record_result i c m st) = best_config st)"
proof (intro conjI impI)
  have s0: "0 \<le> best_rps (start_state m0)" using assms by (simp add: start_state_def)
  show nn: "0 \<le> best_rps (state_of (search_loop js configs env (start_state m0)))"
    by (rule search_loop_best_nonneg[OF s0])
  {
    assume z: "env i = Tested m \<and> rps m = 0"
    have "best_rps (state_of (search_loop (js @ [i]) configs env (start_state m0)))
              = best_rps (state_of (search_loop js configs env (start_state m0)))
          \<and> best_config (state_of (search_loop (js @ [i]) configs env (start_state m0)))
              = best_config (state_of (search_loop js configs env (start_state m0)))"
    proof (cases "\<exists>j\<in>set js. j > length configs")
      case True
      then show ?thesis by (simp only: search_loop_break[OF True])
    next
      case False
      then have le: "\<forall>j\<in>set js. j \<le> length configs" by auto
      show ?thesis
      proof (cases "search_loop js configs env (start_state m0)")
        case (Interrupted s)
        then show ?thesis by (simp only: search_loop_append[OF le] loop_result.case)
      next
        case (Finished s)
        with nn have b: "0 \<le> best_rps s" by simp
        have e: "search_loop (js @ [i]) configs env (start_state m0) = search_loop [i] configs env s"
          by (simp only: search_loop_append[OF le] Finished loop_result.case)
        show ?thesis
          using best_rps_record_result_zero[OF b, of m i "configs ! (i - 1)"] z
          by (simp add: e Finished)
      qed
    qed
  }
  then show "env i = Tested m \<and> rps m = 0 \<Longrightarrow>
      best_rps (state_of (search_loop (js @ [i]) configs env (start_state m0)))
              = best_rps (state_of (search_loop js configs env (start_state m0)))"
    and "env i = Tested m \<and> rps m = 0 \<Longrightarrow>
      best_config (state_of (search_loop (js @ [i]) configs env (start_state m0)))
              = best_config (state_of (search_loop js configs env (start_state m0)))"
    by blast+
next
  assume "0 \<le> best_rps st \<and> rps m = 0"
  then show "best_rps (record_result i c m st) = best_rps st"
    by (simp add: best_rps_record_result_zero)
next
  assume "0 \<le> best_rps st \<and> rps m = 0"
  then show "best_config (record_result i c m st) = best_config st"
    by (simp add: best_rps_record_result_zero)
qed

lemma search_loop_idle:
  "state_of (search_loop [1] [grid2 1, grid2 2]
      (world_event (world_of [tested 50, tested 80, tested 0]))
      (start_state (zero_metrics\<lparr>rps := 50\<rparr>))) =
     \<lparr>history = [rec_of 0 get_default_config 50, rec_of 1 (grid2 1) 80],
      best_rps = 80, best_config = grid2 1\<rparr>"
  by (simp add: world_of_def tested_def start_state_def record_result_def rec_of_def Let_def)

theorem zero_throughput_never_best_witness:
  "best_rps (state_of (search_loop [1, 2] [grid2 1, grid2 2]
      (world_event (world_of [tested 50, tested 80, tested 0]))
      (start_state (zero_metrics\<lparr>rps := 50\<rparr>)))) = 80
   \<and> best_config (state_of (search_loop [1, 2] [grid2 1, grid2 2]
      (world_event (world_of [tested 50, tested 80, tested 0]))
      (start_state (zero_metrics\<lparr>rps := 50\<rparr>)))) = grid2 1"
proof -
  let ?env = "world_event (world_of [tested 50, tested 80, tested 0])"
  have 1: "0 \<le> rps (zero_metrics\<lparr>rps := 50\<rparr>)" by simp
  have 2: "?env 2 = Tested (zero_metrics\<lparr>rps := 0\<rparr>) \<and> rps (zero_metrics\<lparr>rps := 0\<rparr>) = 0"
    by (simp add: world_of_def tested_def)
  note t = zero_throughput_never_best[OF 1, of "[1]" "[grid2 1, grid2 2]" ?env 2
      "zero_metrics\<lparr>rps := 0\<rparr>"]
  from t 2 have a: "best_rps (state_of (search_loop ([1] @ [2]) [grid2 1, grid2 2] ?env
            (start_state (zero_metrics\<lparr>rps := 50\<rparr>))))
        = best_rps (state_of (search_loop [1] [grid2 1, grid2 2] ?env
            (start_state (zero_metrics\<lparr>rps := 50\<rparr>))))
      \<and> best_config (state_of (search_loop ([1] @ [2]) [grid2 1, grid2 2] ?env
            (start_state (zero_metrics\<lparr>rps := 50\<rparr>))))
        = best_config (state_of (search_loop [1] [grid2 1, grid2 2] ?env
            (start_state (zero_metrics\<lparr>rps := 50\<rparr>))))"
    by blast
  have b: "[1] @ [2] = [1, 2::nat]" by simp
  from a[unfolded b search_loop_idle] show ?thesis
    by (simp only: driver_state.select_convs)
qed

section \<open>Properties of the result parser\<close>

lemma scan_rows_skip:
  "no_aggregated pre \<Longrightarrow> scan_rows F I (pre @ rest) m = scan_rows F I rest m"
proof (induction pre)
  case Nil
  then show ?case by simp
next
  case (Cons it pre)
  then show ?case by (cases it) (simp_all add: no_aggregated_def)
qed

lemma too_large_times_100: "\<not> too_large (q * 100) \<Longrightarrow> \<not> too_large q"
proof -
  assume a: "\<not> too_large (q * 100)"
  have "\<bar>q\<bar> \<le> \<bar>q * 100\<bar>" by (simp add: abs_mult)
  with a show ?thesis unfolding too_large_def by linarith
qed

lemma true_div_in_range:
  "0 < n \<Longrightarrow> \<not> too_large (real_of_int a / real_of_int n) \<Longrightarrow>
   true_div a n = Inr (real_of_int a / real_of_int n)"
  by (simp add: true_div_def)

lemma read_aggregated_ok:
  assumes "float_of_cell F (r ''Requests/s'') = Inr x"
    and "float_of_cell F (r ''Average Response Time'') = Inr t"
    and "int_of_cell I (r ''Request Count'') = Inr n"
    and "int_of_cell I (r ''Failure Count'') = Inr k"
    and "0 < n \<Longrightarrow> \<not> too_large ((real_of_int (n - k) / real_of_int n) * 100)"
  shows "read_aggregated F I r zero_metrics =
     (None, \<lparr>rps = x, avg_response_time = Some t,
             total_requests = Some (if n > 0 then n else 0),
             success_rate = Some (if n > 0 then (real_of_int (n - k) / real_of_int n) * 100 else 0),
             error = None\<rparr>)"
proof (cases "0 < n")
  case True
  from assms(5)[OF True] have "\<not> too_large (real_of_int (n - k) / real_of_int n)"
    by (rule too_large_times_100)
  from true_div_in_range[OF True this] show ?thesis
    using assms(1-4) True by (simp add: read_aggregated_def zero_metrics_def Let_def)
next
  case False
  then show ?thesis
    using assms(1-4) by (simp add: read_aggregated_def zero_metrics_def Let_def)
qed

text \<open>
  C4. When the rows before the first aggregated row \<open>r\<close> are read without failure, the
  four conversions on \<open>r\<close> succeed with the values \<open>x\<close>, \<open>t\<close>, \<open>n\<close> and \<open>k\<close>, and for \<open>n > 0\<close>
  the success rate \<open>(n - k) / n * 100\<close> is within the range of floats, the parser returns
  the throughput \<open>x\<close> and the latency \<open>t\<close> as floats, and for \<open>n > 0\<close> the request count \<open>n\<close>
  and that success rate, for \<open>n \<le> 0\<close> their zero defaults; nothing is raised and the
  result does not depend on the items \<open>post\<close> after \<open>r\<close>. With 150.5 requests per second,
  1000 requests and 10 failures the result has \<open>rps = 150.5\<close>, \<open>total_requests = 1000\<close> and
  \<open>success_rate = 99.0\<close>.
\<close>

theorem parse_first_aggregated_row:
  assumes "no_aggregated pre" and "is_aggregated r"
    and "float_of_cell F (r ''Requests/s'') = Inr x"
    and "float_of_cell F (r ''Average Response Time'') = Inr t"
    and "int_of_cell I (r ''Request Count'') = Inr n"
    and "int_of_cell I (r ''Failure Count'') = Inr k"
    and "0 < n \<Longrightarrow> \<not> too_large ((real_of_int (n - k) / real_of_int n) * 100)"
  shows "parse_locust_results F I (Table (pre @ Row r # post)) =
     \<lparr>rps = x, avg_response_time = Some t,
      total_requests = Some (if n > 0 then n else 0),
      success_rate = Some (if n > 0 then (real_of_int (n - k) / real_of_int n) * 100 else 0),
      error = None\<rparr>
   \<and> fst (parse_try F I (Table (pre @ Row r # post))) = None
   \<and> (x = 150.5 \<and> n = 1000 \<and> k = 10 \<longrightarrow>
        rps (parse_locust_results F I (Table (pre @ Row r # post))) = 150.5
      \<and> total_requests (parse_locust_results F I (Table (pre @ Row r # post))) = Some 1000
      \<and> success_rate (parse_locust_results F I (Table (pre @ Row r # post))) = Some 99.0)"
proof -
  have "parse_try F I (Table (pre @ Row r # post)) = read_aggregated F I r zero_metrics"
    using assms(1,2) by (simp add: parse_try_def scan_rows_skip)
  then show ?thesis
    using read_aggregated_ok[OF assms(3-7)] by (simp add: parse_locust_results_def)
qed

lemma dec_150: "dec_float ''150.5'' = Some 150.5"
  by (simp add: dec_float_def digit_val_def Let_def)

lemma dec_12: "dec_float ''12.5'' = Some 12.5"
  by (simp add: dec_float_def digit_val_def Let_def)

lemma dec_1000:
  "dec_int ''1000'' = Some 1000" "dec_int ''10'' = Some 10" "dec_int ''1'' = Some 1"
  "dec_int ''N/A'' = None"
  by (simp_all add: dec_int_def digit_val_def)

lemma example_row_cells:
  "is_aggregated example_row"
  "float_of_cell dec_float (example_row ''Requests/s'') = Inr 150.5"
  "float_of_cell dec_float (example_row ''Average Response Time'') = Inr 12.5"
  "int_of_cell dec_int (example_row ''Request Count'') = Inr 1000"
  "int_of_cell dec_int (example_row ''Failure Count'') = Inr 10"
  by (simp_all add: example_row_def row_of_def is_aggregated_def float_of_cell_def
        int_of_cell_def dec_150 dec_12 dec_1000)

lemma get_row_plain: "\<not> is_aggregated get_row"
  by (simp add: get_row_def row_of_def is_aggregated_def)

theorem parse_first_aggregated_row_witness:
  "parse_locust_results dec_float dec_int
      (Table ([Row get_row] @ Row example_row # [Row broken_row, Read_error OSError])) =
     \<lparr>rps = 150.5, avg_response_time = Some 12.5, total_requests = Some 1000,
      success_rate = Some 99, error = None\<rparr>"
proof -
  have 1: "no_aggregated [Row get_row]" by (simp add: no_aggregated_def get_row_plain)
  have 2: "(0::int) < 1000 \<Longrightarrow>
      \<not> too_large ((real_of_int (1000 - 10) / real_of_int 1000) * 100)"
    by (simp add: too_large_def)
  from parse_first_aggregated_row[OF 1 example_row_cells 2,
      of "[Row broken_row, Read_error OSError]"]
  show ?thesis by simp
qed

lemma read_aggregated_raised:
  "fst (read_aggregated F I r m) = Some e \<Longrightarrow>
   success_rate (snd (read_aggregated F I r m)) = success_rate m
   \<and> error (snd (read_aggregated F I r m)) = error m"
  by (auto simp: read_aggregated_def Let_def split: sum.splits if_splits)

lemma scan_rows_raised:
  "fst (scan_rows F I items m) = Some e \<Longrightarrow>
   success_rate (snd (scan_rows F I items m)) = success_rate m
   \<and> error (snd (scan_rows F I items m)) = error m"
proof (induction items)
  case Nil
  then show ?case by simp
next
  case (Cons it items)
  show ?case
  proof (cases it)
    case (Row r)
    with Cons show ?thesis by (cases "is_aggregated r") (simp_all add: read_aggregated_raised)
  next
    case (Read_error x)
    then show ?thesis by simp
  qed
qed

lemma scan_rows_none: "no_aggregated items \<Longrightarrow> scan_rows F I items m = (None, m)"
  using scan_rows_skip[of items F I "[]" m] by simp

text \<open>
  Where the parser does return the zero-valued metrics: when no row matches (and nothing
  is raised), when the file cannot be opened, when reading raises before a matching row,
  and when the first conversion (of \<^verbatim>\<open>Requests/s\<close>) on the matching row raises.
\<close>

lemma parse_zero_cases:
  "(no_aggregated items \<longrightarrow> parse_try F I (Table items) = (None, zero_metrics)
       \<and> parse_locust_results F I (Table items) = zero_metrics)
   \<and> parse_locust_results F I (Unreadable e) = zero_metrics
   \<and> (no_aggregated pre \<longrightarrow>
         parse_locust_results F I (Table (pre @ Read_error e # post)) = zero_metrics)
   \<and> (no_aggregated pre \<and> is_aggregated r \<and> float_of_cell F (r ''Requests/s'') = Inl e \<longrightarrow>
         parse_locust_results F I (Table (pre @ Row r # post)) = zero_metrics)"
proof (intro conjI impI)
  assume "no_aggregated items"
  then show "parse_try F I (Table items) = (None, zero_metrics)"
    and "parse_locust_results F I (Table items) = zero_metrics"
    by (simp_all add: parse_locust_results_def parse_try_def scan_rows_none)
next
  show "parse_locust_results F I (Unreadable e) = zero_metrics"
    by (simp add: parse_locust_results_def parse_try_def)
next
  assume "no_aggregated pre"
  then show "parse_locust_results F I (Table (pre @ Read_error e # post)) = zero_metrics"
    by (simp add: parse_locust_results_def parse_try_def scan_rows_skip)
next
  assume "no_aggregated pre \<and> is_aggregated r \<and> float_of_cell F (r ''Requests/s'') = Inl e"
  then show "parse_locust_results F I (Table (pre @ Row r # post)) = zero_metrics"
    by (simp add: parse_locust_results_def parse_try_def scan_rows_skip read_aggregated_def)
qed

lemma broken_row_cells:
  "is_aggregated broken_row"
  "float_of_cell dec_float (broken_row ''Requests/s'') = Inr 150.5"
  "float_of_cell dec_float (broken_row ''Average Response Time'') = Inr 12.5"
  "int_of_cell dec_int (broken_row ''Request Count'') = Inl ValueError"
  by (simp_all add: broken_row_def row_of_def is_aggregated_def float_of_cell_def
        int_of_cell_def dec_150 dec_12 dec_1000)

lemma dec_nat_zeros: "dec_nat (replicate n CHR ''0'') acc = Some (acc * 10 ^ n)"
  by (induction n arbitrary: acc) (simp_all add: digit_val_def)

lemma dec_int_power: "dec_int (CHR ''1'' # replicate 400 CHR ''0'') = Some (10 ^ 400)"
  by (simp add: dec_int_def dec_nat_zeros digit_val_def)

lemma overflow_row_cells:
  "is_aggregated overflow_row"
  "float_of_cell dec_float (overflow_row ''Requests/s'') = Inr 150.5"
  "float_of_cell dec_float (overflow_row ''Average Response Time'') = Inr 12.5"
  "int_of_cell dec_int (overflow_row ''Request Count'') = Inr 1"
  "int_of_cell dec_int (overflow_row ''Failure Count'') = Inr (10 ^ 400)"
  by (simp_all add: overflow_row_def row_of_def is_aggregated_def float_of_cell_def
        int_of_cell_def dec_150 dec_12 dec_1000 dec_int_power)

text \<open>
  C5 fails on the code. On an aggregated row with 150.5 requests per second, a latency
  of 12.5 and the request count \<^verbatim>\<open>N/A\<close>, the conversion of the count raises ValueError,
  the handler catches it, and the parser returns the throughput 150.5 and the latency
  12.5 that were assigned before, not the zero-valued metrics. On an aggregated row with
  one request and a failure count of 1 followed by 400 zeros, the division raises
  OverflowError and the parser returns, with the same throughput and latency, the
  request count 1 that was assigned before the division.
\<close>

theorem conversion_failure_keeps_parsed_fields:
  "fst (parse_try dec_float dec_int (Table [Row broken_row])) = Some ValueError
   \<and> parse_locust_results dec_float dec_int (Table [Row broken_row]) =
       \<lparr>rps = 150.5, avg_response_time = Some 12.5, total_requests = Some 0,
        success_rate = Some 0, error = None\<rparr>
   \<and> parse_locust_results dec_float dec_int (Table [Row broken_row]) \<noteq> zero_metrics
   \<and> fst (parse_try dec_float dec_int (Table [Row overflow_row])) = Some OverflowError
   \<and> parse_locust_results dec_float dec_int (Table [Row overflow_row]) =
       \<lparr>rps = 150.5, avg_response_time = Some 12.5, total_requests = Some 1,
        success_rate = Some 0, error = None\<rparr>"
proof -
  have a: "parse_try dec_float dec_int (Table [Row broken_row]) =
      (Some ValueError, \<lparr>rps = 150.5, avg_response_time = Some 12.5, total_requests = Some 0,
        success_rate = Some 0, error = None\<rparr>)"
    by (simp add: parse_try_def read_aggregated_def broken_row_cells zero_metrics_def Let_def)
  have b: "parse_try dec_float dec_int (Table [Row overflow_row]) =
      (Some OverflowError, \<lparr>rps = 150.5, avg_response_time = Some 12.5,
        total_requests = Some 1, success_rate = Some 0, error = None\<rparr>)"
    by (simp add: parse_try_def read_aggregated_def overflow_row_cells true_div_def
          too_large_def zero_metrics_def Let_def)
  show ?thesis by (simp add: parse_locust_results_def a b zero_metrics_def)
qed

section \<open>Properties of the load-test runner\<close>

lemma failure_reads_zero:
  "rps (failure e) = 0 \<and> error (failure e) = Some e
   \<and> get_avg_response_time (failure e) = 0 \<and> get_total_requests (failure e) = 0
   \<and> get_success_rate (failure e) = 0"
  by (simp add: failure_def get_avg_response_time_def get_total_requests_def
        get_success_rate_def)

lemma newest_first_set: "set (newest_first files) = set files"
  by (simp add: newest_first_def)

lemma newest_first_Nil: "newest_first files = [] \<longleftrightarrow> files = []"
  using newest_first_set[of files] by (metis set_empty)

text \<open>
  C9. The runner raises nothing and every path on which it detects a failure returns the
  dictionary of a zero throughput with an error text: the text of the exceeded maximum
  time when the script does not end within \<open>duration + 120\<close> seconds, the text of the
  exception when starting the script, listing the files or reading their times raises,
  and a text of its own when the results directory is missing and when no file matches.
  On every other path the result is what the parser returns on one of the listed files.
  The failure dictionary has the throughput 0 and reads as 0 on every other figure.
\<close>

theorem run_load_test_failures:
  "(launch_error env = None \<and> (\<forall>t. run_seconds env = Some t \<longrightarrow> t > duration + 120) \<longrightarrow>
      run_load_test F I users spawn_rate duration env = failure Test_exceeded_max_time)
   \<and> (launch_error env = Some msg \<longrightarrow>
      run_load_test F I users spawn_rate duration env = failure (Other_error msg))
   \<and> (subprocess_run (duration + 120) env = Inr () \<and> \<not> results_dir_exists env \<longrightarrow>
      run_load_test F I users spawn_rate duration env = failure Results_dir_not_found)
   \<and> (subprocess_run (duration + 120) env = Inr () \<and> results_dir_exists env
        \<and> listing_error env = None \<and> stats_files env = [] \<longrightarrow>
      run_load_test F I users spawn_rate duration env = failure Csv_not_found)
   \<and> (subprocess_run (duration + 120) env = Inr () \<and> results_dir_exists env
        \<and> listing_error env = Some msg \<longrightarrow>
      run_load_test F I users spawn_rate duration env = failure (Other_error msg))
   \<and> ((\<exists>e. run_load_test F I users spawn_rate duration env = failure e)
        \<or> (\<exists>f. f \<in> set (stats_files env)
              \<and> run_load_test F I users spawn_rate duration env
                  = parse_locust_results F I (snd f)))
   \<and> rps (failure e) = 0 \<and> error (failure e) = Some e
   \<and> get_avg_response_time (failure e) = 0 \<and> get_total_requests (failure e) = 0
   \<and> get_success_rate (failure e) = 0"
proof -
  have 1: "launch_error env = None \<and> (\<forall>t. run_seconds env = Some t \<longrightarrow> t > duration + 120) \<longrightarrow>
      run_load_test F I users spawn_rate duration env = failure Test_exceeded_max_time"
    by (cases "run_seconds env") (auto simp: run_load_test_def subprocess_run_def)
  have 2: "launch_error env = Some msg \<longrightarrow>
      run_load_test F I users spawn_rate duration env = failure (Other_error msg)"
    by (simp add: run_load_test_def subprocess_run_def)
  have 3: "subprocess_run (duration + 120) env = Inr () \<and> \<not> results_dir_exists env \<longrightarrow>
      run_load_test F I users spawn_rate duration env = failure Results_dir_not_found"
    by (simp add: run_load_test_def)
  have 4: "subprocess_run (duration + 120) env = Inr () \<and> results_dir_exists env
        \<and> listing_error env = None \<and> stats_files env = [] \<longrightarrow>
      run_load_test F I users spawn_rate duration env = failure Csv_not_found"
    by (simp add: run_load_test_def newest_first_def)
  have 5: "subprocess_run (duration + 120) env = Inr () \<and> results_dir_exists env
        \<and> listing_error env = Some msg \<longrightarrow>
      run_load_test F I users spawn_rate duration env = failure (Other_error msg)"
    by (simp add: run_load_test_def)
  have 6: "(\<exists>e. run_load_test F I users spawn_rate duration env = failure e)
        \<or> (\<exists>f. f \<in> set (stats_files env)
              \<and> run_load_test F I users spawn_rate duration env
                  = parse_locust_results F I (snd f))"
  proof (cases "subprocess_run (duration + 120) env")
    case (Inl x)
    then have "run_load_test F I users spawn_rate duration env =
        failure (case x of TimeoutExpired \<Rightarrow> Test_exceeded_max_time
                          | Other_exception m \<Rightarrow> Other_error m)"
      by (cases x) (simp_all add: run_load_test_def)
    then show ?thesis by blast
  next
    case (Inr u)
    show ?thesis
    proof (cases "results_dir_exists env")
      case False
      with Inr have "run_load_test F I users spawn_rate duration env
          = failure Results_dir_not_found" by (simp add: run_load_test_def)
      then show ?thesis by blast
    next
      case True
      show ?thesis
      proof (cases "listing_error env")
        case (Some m)
        with Inr True have "run_load_test F I users spawn_rate duration env
            = failure (Other_error m)" by (simp add: run_load_test_def)
        then show ?thesis by blast
      next
        case None
        show ?thesis
        proof (cases "newest_first (stats_files env)")
          case Nil
          with Inr True None have "run_load_test F I users spawn_rate duration env
              = failure Csv_not_found" by (simp add: run_load_test_def)
          then show ?thesis by blast
        next
          case (Cons f fs)
          then have "f \<in> set (stats_files env)"
            using newest_first_set[of "stats_files env"] by auto
          moreover have "run_load_test F I users spawn_rate duration env
                  = parse_locust_results F I (snd f)"
            using Inr True None Cons by (simp add: run_load_test_def)
          ultimately show ?thesis by blast
        qed
      qed
    qed
  qed
  from 1 2 3 4 5 6 failure_reads_zero[of e] show ?thesis by blast
qed

theorem run_load_test_failures_witness:
  "run_load_test dec_float dec_int 100 4 60 slow_env = failure Test_exceeded_max_time
   \<and> run_load_test dec_float dec_int 100 4 60 bare_env = failure Results_dir_not_found
   \<and> run_load_test dec_float dec_int 100 4 60 (bare_env\<lparr>results_dir_exists := True\<rparr>)
       = failure Csv_not_found"
proof -
  have a: "launch_error slow_env = None
      \<and> (\<forall>t. run_seconds slow_env = Some t \<longrightarrow> t > 60 + 120)"
    by (simp add: slow_env_def)
  have b: "subprocess_run (60 + 120) bare_env = Inr () \<and> \<not> results_dir_exists bare_env"
    by (simp add: subprocess_run_def bare_env_def)
  have c: "subprocess_run (60 + 120) (bare_env\<lparr>results_dir_exists := True\<rparr>) = Inr ()
      \<and> results_dir_exists (bare_env\<lparr>results_dir_exists := True\<rparr>)
      \<and> listing_error (bare_env\<lparr>results_dir_exists := True\<rparr>) = None
      \<and> stats_files (bare_env\<lparr>results_dir_exists := True\<rparr>) = []"
    by (simp add: subprocess_run_def bare_env_def)
  from run_load_test_failures[where env=slow_env and duration=60 and F=dec_float and I=dec_int
      and users=100 and spawn_rate=4] a
  have 1: "run_load_test dec_float dec_int 100 4 60 slow_env = failure Test_exceeded_max_time"
    by blast
  from run_load_test_failures[where env=bare_env and duration=60 and F=dec_float and I=dec_int
      and users=100 and spawn_rate=4] b
  have 2: "run_load_test dec_float dec_int 100 4 60 bare_env = failure Results_dir_not_found"
    by blast
  from run_load_test_failures[where env="bare_env\<lparr>results_dir_exists := True\<rparr>"
      and duration=60 and F=dec_float and I=dec_int and users=100 and spawn_rate=4] c
  have 3: "run_load_test dec_float dec_int 100 4 60 (bare_env\<lparr>results_dir_exists := True\<rparr>)
       = failure Csv_not_found"
    by blast
  from 1 2 3 show ?thesis by blast
qed

section \<open>Properties of the configuration editor\<close>

lemma take1_eq: "take 1 xs = [x] \<Longrightarrow> xs = x # drop 1 xs"
  by (cases xs) simp_all

lemma match_directive_Some:
  assumes "match_directive name s = Some (ws, ds)"
  shows "s = name @ ws @ ds @ '';'' @ drop (length name + length ws + length ds + 1) s"
    and "ws \<noteq> []" and "\<forall>c\<in>set ws. is_space c"
    and "ds \<noteq> []" and "\<forall>c\<in>set ds. is_digit c"
proof -
  define s1 where "s1 = drop (length name) s"
  define s2 where "s2 = dropWhile is_space s1"
  define s3 where "s3 = dropWhile is_digit s2"
  from assms have n: "take (length name) s = name"
    by (auto simp: match_directive_def split: if_splits)
  from assms n have ws: "ws = takeWhile is_space s1" and ds: "ds = takeWhile is_digit s2"
    and c: "ws \<noteq> []" "ds \<noteq> []" "take 1 s3 = '';''"
    by (auto simp: match_directive_def Let_def s1_def s2_def s3_def split: if_splits)
  have e1: "s = name @ s1" unfolding s1_def using n by (metis append_take_drop_id)
  have e2: "s1 = ws @ s2" unfolding ws s2_def by simp
  have e3: "s2 = ds @ s3" unfolding ds s3_def by simp
  have e4: "s3 = CHR '';'' # drop 1 s3" using c(3) by (rule take1_eq)
  have s: "s = name @ ws @ ds @ '';'' @ drop 1 s3"
    using e1 e2 e3 e4 by (metis append_Cons append_Nil)
  have "drop (length name + length ws + length ds + 1) s = drop 1 s3"
    by (subst s) simp
  with s show "s = name @ ws @ ds @ '';'' @ drop (length name + length ws + length ds + 1) s"
    by simp
  show "ws \<noteq> []" "ds \<noteq> []" by (rule c)+
  show "\<forall>c\<in>set ws. is_space c" unfolding ws by (auto dest: set_takeWhileD)
  show "\<forall>c\<in>set ds. is_digit c" unfolding ds by (auto dest: set_takeWhileD)
qed

lemma find_directives_reassemble:
  "replace_hits (\<lambda>a d b. a @ d @ b) (find_directives name s) = s"
proof (induction name s rule: find_directives.induct)
  case (1 name)
  show ?case by (simp add: replace_hits_def)
next
  case (2 name c cs)
  show ?case
  proof (cases "match_directive name (c # cs)")
    case None
    with 2(1) show ?thesis by (simp add: replace_hits_def)
  next
    case (Some m)
    obtain ws ds where m: "m = (ws, ds)" by (cases m)
    let ?k = "length name + length ws + length ds"
    have ih: "replace_hits (\<lambda>a d b. a @ d @ b) (find_directives name (drop ?k cs)) = drop ?k cs"
      by (rule 2(2)[OF Some]) (simp add: m)
    from match_directive_Some(1)[OF Some[unfolded m]]
    have "c # cs = name @ ws @ ds @ '';'' @ drop ?k cs" by simp
    moreover have "replace_hits (\<lambda>a d b. a @ d @ b) (find_directives name (c # cs))
        = name @ ws @ ds @ '';'' @ drop ?k cs"
      using Some m ih by (simp add: replace_hits_def)
    ultimately show ?thesis by simp
  qed
qed

lemma find_directives_shape: "list_all (directive_hit name) (find_directives name s)"
proof (induction name s rule: find_directives.induct)
  case (1 name)
  show ?case by simp
next
  case (2 name c cs)
  show ?case
  proof (cases "match_directive name (c # cs)")
    case None
    have "directive_hit name (Gap c)" by (simp add: directive_hit_def)
    with 2(1)[OF None] None show ?thesis by simp
  next
    case (Some m)
    obtain ws ds where m: "m = (ws, ds)" by (cases m)
    let ?k = "length name + length ws + length ds"
    have ih: "list_all (directive_hit name) (find_directives name (drop ?k cs))"
      by (rule 2(2)[OF Some]) (simp add: m)
    from match_directive_Some(2-5)[OF Some[unfolded m]]
    have "directive_hit name (Hit (name @ ws) ds '';'')"
      by (simp add: directive_hit_def list_all_iff)
    with ih show ?thesis using Some m by simp
  qed
qed

lemma single_spaced_replace:
  "list_all (single_spaced name) ps \<Longrightarrow>
   replace_hits (\<lambda>a d b. name @ '' '' @ v @ '';'') ps
     = replace_hits (\<lambda>a d b. a @ v @ '';'') ps"
  by (induction ps) (auto simp: replace_hits_def single_spaced_def split: piece.splits)

lemma directive_hit_suffix:
  "list_all (directive_hit name) ps \<Longrightarrow>
   replace_hits (\<lambda>a d b. a @ v @ '';'') ps = replace_hits (\<lambda>a d b. a @ v @ b) ps"
  by (induction ps) (auto simp: replace_hits_def directive_hit_def split: piece.splits)

lemma directive_hit_fixed:
  "list_all (directive_hit name) ps \<Longrightarrow>
   replace_hits (\<lambda>a d b. name @ '' '' @ v @ '';'') ps
     = replace_hits (\<lambda>a d b. name @ '' '' @ v @ b) ps"
  by (induction ps) (auto simp: replace_hits_def directive_hit_def split: piece.splits)

lemma match_keepalive_Some:
  assumes "match_keepalive t = Some (ws, ds, ws2)"
  shows "t = ''keepalive'' @ ws @ ds @ ws2 @ '';''
            @ drop (length ''keepalive'' + length ws + length ds + length ws2 + 1) t"
    and "ws \<noteq> []" and "\<forall>c\<in>set ws. is_space c"
    and "ds \<noteq> []" and "\<forall>c\<in>set ds. is_digit c" and "\<forall>c\<in>set ws2. is_space c"
proof -
  define t1 where "t1 = drop (length ''keepalive'') t"
  define t2 where "t2 = dropWhile is_space t1"
  define t3 where "t3 = dropWhile is_digit t2"
  define t4 where "t4 = dropWhile is_space t3"
  from assms have n: "take (length ''keepalive'') t = ''keepalive''"
    by (auto simp: match_keepalive_def split: if_splits)
  from assms n have ws: "ws = takeWhile is_space t1" and ds: "ds = takeWhile is_digit t2"
    and ws2: "ws2 = takeWhile is_space t3"
    and c: "ws \<noteq> []" "ds \<noteq> []" "take 1 t4 = '';''"
    unfolding match_keepalive_def Let_def t1_def t2_def t3_def t4_def
    by (auto split: if_splits)
  have e1: "t = ''keepalive'' @ t1" unfolding t1_def using n by (metis append_take_drop_id)
  have e2: "t1 = ws @ t2" unfolding ws t2_def by simp
  have e3: "t2 = ds @ t3" unfolding ds t3_def by simp
  have e4: "t3 = ws2 @ t4" unfolding ws2 t4_def by simp
  have e5: "t4 = CHR '';'' # drop 1 t4" using c(3) by (rule take1_eq)
  have s: "t = ''keepalive'' @ ws @ ds @ ws2 @ '';'' @ drop 1 t4"
    using e1 e2 e3 e4 e5 by (metis append_Cons append_Nil)
  have "drop (length ''keepalive'' + length ws + length ds + length ws2 + 1) t = drop 1 t4"
    by (subst s) simp
  with s show "t = ''keepalive'' @ ws @ ds @ ws2 @ '';''
            @ drop (length ''keepalive'' + length ws + length ds + length ws2 + 1) t"
    by simp
  show "ws \<noteq> []" "ds \<noteq> []" by (rule c)+
  show "\<forall>c\<in>set ws. is_space c" unfolding ws by (auto dest: set_takeWhileD)
  show "\<forall>c\<in>set ds. is_digit c" unfolding ds by (auto dest: set_takeWhileD)
  show "\<forall>c\<in>set ws2. is_space c" unfolding ws2 by (auto dest: set_takeWhileD)
qed

lemma last_keepalive_Some:
  "last_keepalive t n = Some (q, m) \<Longrightarrow> q \<le> n \<and> match_keepalive (drop q t) = Some m"
  by (induction n) (auto split: option.splits)

lemma match_upstream_Some:
  assumes "match_upstream s = Some (a, d, b)"
  shows "s = a @ d @ b @ drop (length a + length d + length b) s"
    and "upstream_hit (Hit a d b)"
proof -
  define s1 where "s1 = drop (length block_marker) s"
  define n where "n = length (takeWhile (\<lambda>c. c \<noteq> CHR ''}'') s1)"
  from assms have mk: "take (length block_marker) s = block_marker"
    by (auto simp: match_upstream_def split: if_splits)
  from assms mk obtain q ws ws2 where l: "last_keepalive s1 n = Some (q, ws, d, ws2)"
    and a: "a = block_marker @ take q s1 @ ''keepalive'' @ ws" and b: "b = ws2 @ '';''"
    unfolding match_upstream_def Let_def s1_def n_def
    by (auto split: if_splits option.splits)
  from last_keepalive_Some[OF l] have q: "q \<le> n"
    and m: "match_keepalive (drop q s1) = Some (ws, d, ws2)" by simp_all
  note k = match_keepalive_Some[OF m]
  have e1: "s = block_marker @ s1" unfolding s1_def using mk by (metis append_take_drop_id)
  have e2: "s1 = take q s1 @ drop q s1" by simp
  let ?r = "drop (length ''keepalive'' + length ws + length d + length ws2 + 1) (drop q s1)"
  have e3: "drop q s1 = ''keepalive'' @ ws @ d @ ws2 @ '';'' @ ?r" by (rule k(1))
  have lq: "length (take q s1) = q"
    using q unfolding n_def by (metis length_take min.absorb2 length_takeWhile_le order_trans)
  have s: "s = a @ d @ b @ ?r"
    unfolding a b using e1 e2 e3 by (metis append.assoc)
  have "drop (length a + length d + length b) s = ?r"
    by (subst s) simp
  with s show "s = a @ d @ b @ drop (length a + length d + length b) s" by simp
  have "take q s1 = take q (takeWhile (\<lambda>c. c \<noteq> CHR ''}'') s1)"
    using q unfolding n_def
    by (metis append_eq_conv_conj takeWhile_dropWhile_id min_def take_take)
  then have nb: "CHR ''}'' \<notin> set (take q s1)"
    by (auto dest!: in_set_takeD set_takeWhileD)
  show "upstream_hit (Hit a d b)"
    unfolding upstream_hit_def using a b nb k(2-6) by (auto simp: list_all_iff)
qed

lemma find_upstream_reassemble:
  "replace_hits (\<lambda>a d b. a @ d @ b) (find_upstream s) = s"
proof (induction s rule: find_upstream.induct)
  case 1
  show ?case by (simp add: replace_hits_def)
next
  case (2 c cs)
  show ?case
  proof (cases "match_upstream (c # cs)")
    case None
    with 2(1) show ?thesis by (simp add: replace_hits_def)
  next
    case (Some m)
    obtain a d b where m: "m = (a, d, b)" by (cases m)
    let ?k = "length a + length d + length b - 1"
    have ih: "replace_hits (\<lambda>a d b. a @ d @ b) (find_upstream (drop ?k cs)) = drop ?k cs"
      by (rule 2(2)[OF Some, of a "(d, b)" d b]) (simp_all add: m)
    note u = match_upstream_Some[OF Some[unfolded m]]
    from u(2) have "length a > 0" by (auto simp: upstream_hit_def block_marker_def)
    then have "drop (length a + length d + length b) (c # cs) = drop ?k cs"
      by (cases "length a + length d + length b") simp_all
    with u(1) have "c # cs = a @ d @ b @ drop ?k cs" by simp
    moreover have "replace_hits (\<lambda>a d b. a @ d @ b) (find_upstream (c # cs))
        = a @ d @ b @ drop ?k cs"
      using Some m ih by (simp add: replace_hits_def)
    ultimately show ?thesis by simp
  qed
qed

lemma find_upstream_shape: "list_all upstream_hit (find_upstream s)"
proof (induction s rule: find_upstream.induct)
  case 1
  show ?case by simp
next
  case (2 c cs)
  show ?case
  proof (cases "match_upstream (c # cs)")
    case None
    have "upstream_hit (Gap c)" by (simp add: upstream_hit_def)
    with 2(1)[OF None] None show ?thesis by simp
  next
    case (Some m)
    obtain a d b where m: "m = (a, d, b)" by (cases m)
    let ?k = "length a + length d + length b - 1"
    have ih: "list_all upstream_hit (find_upstream (drop ?k cs))"
      by (rule 2(2)[OF Some, of a "(d, b)" d b]) (simp_all add: m)
    from match_upstream_Some(2)[OF Some[unfolded m]] ih
    show ?thesis using Some m by simp
  qed
qed

lemma digit_not_space: "is_digit c \<Longrightarrow> \<not> is_space c"
  by (auto simp: is_digit_def is_space_def)

lemma match_directive_single_space:
  assumes "ds \<noteq> []" and "list_all is_digit ds"
  shows "match_directive name (name @ '' '' @ ds @ '';'' @ post) = Some ('' '', ds)"
proof -
  define Y where "Y = ds @ '';'' @ post"
  define X where "X = '' '' @ Y"
  obtain d ds' where ds: "ds = d # ds'" using assms(1) by (cases ds) auto
  have d: "\<not> is_space d" using assms(2) ds by (simp add: digit_not_space)
  have sp: "is_space CHR '' ''" by (simp add: is_space_def)
  have sc: "\<not> is_digit CHR '';''" by (simp add: is_digit_def)
  have all: "\<And>x. x \<in> set ds \<Longrightarrow> is_digit x" using assms(2) by (simp add: list_all_iff)
  have w: "takeWhile is_space X = '' ''"
    using d sp by (simp add: X_def Y_def ds)
  have w': "dropWhile is_space X = Y"
    using d sp by (simp add: X_def Y_def ds)
  have t: "takeWhile is_digit Y = ds"
    using sc by (simp add: Y_def takeWhile_append2[OF all])
  have t': "dropWhile is_digit Y = '';'' @ post"
    using sc by (simp add: Y_def dropWhile_append2[OF all])
  have "match_directive name (name @ X) = Some ('' '', ds)"
    unfolding match_directive_def Let_def by (simp add: w w' t t' assms(1))
  then show ?thesis by (simp add: X_def Y_def)
qed

lemma match_directive_other_head:
  "name \<noteq> [] \<Longrightarrow> c \<noteq> hd name \<Longrightarrow> match_directive name (c # cs) = None"
  by (cases name) (simp_all add: match_directive_def)

lemma find_directives_gaps:
  "name \<noteq> [] \<Longrightarrow> hd name \<notin> set pre \<Longrightarrow>
   find_directives name (pre @ rest) = map Gap pre @ find_directives name rest"
  by (induction pre) (auto simp: match_directive_other_head)

lemma replace_hits_append:
  "replace_hits r (ps @ qs) = replace_hits r ps @ replace_hits r qs"
  by (simp add: replace_hits_def)

lemma replace_hits_gaps: "replace_hits r (map Gap cs) = cs"
  by (induction cs) (simp_all add: replace_hits_def)

lemma set_directive_single_space:
  assumes "name \<noteq> []" and "hd name \<notin> set pre" and "ds \<noteq> []" and "list_all is_digit ds"
  shows "set_directive name v (pre @ name @ '' '' @ ds @ '';'' @ post)
       = pre @ name @ '' '' @ show_int v @ '';'' @ set_directive name v post"
proof -
  obtain c cs where n: "name = c # cs" using assms(1) by (cases name) auto
  let ?dir = "name @ '' '' @ ds @ '';'' @ post"
  have m: "match_directive name ?dir = Some ('' '', ds)"
    by (rule match_directive_single_space[OF assms(3,4)])
  have "find_directives name ?dir =
      Hit (name @ '' '') ds '';'' # find_directives name post"
    using m unfolding n by simp
  then have "find_directives name (pre @ ?dir) =
      map Gap pre @ Hit (name @ '' '') ds '';'' # find_directives name post"
    by (simp add: find_directives_gaps[OF assms(1,2)])
  then show ?thesis
    unfolding set_directive_def
    by (simp add: replace_hits_append replace_hits_gaps) (simp add: replace_hits_def)
qed

lemma match_upstream_needs_brace:
  "CHR ''{'' \<notin> set s \<Longrightarrow> match_upstream s = None"
proof (rule ccontr)
  assume b: "CHR ''{'' \<notin> set s" and "match_upstream s \<noteq> None"
  then have "take (length block_marker) s = block_marker"
    by (auto simp: match_upstream_def split: if_splits)
  then have "set block_marker \<subseteq> set s" by (metis set_take_subset)
  then show False using b by (auto simp: block_marker_def)
qed

lemma find_upstream_gaps: "CHR ''{'' \<notin> set s \<Longrightarrow> find_upstream s = map Gap s"
proof (induction s)
  case Nil
  show ?case by simp
next
  case (Cons c cs)
  from Cons.prems have "match_upstream (c # cs) = None" by (rule match_upstream_needs_brace)
  with Cons show ?case by simp
qed

lemma match_directive_complete:
  assumes "directive_at name ws ds rest t"
  shows "match_directive name t = Some (ws, ds)"
proof -
  from assms have t: "t = name @ ws @ ds @ '';'' @ rest"
    and ws: "ws \<noteq> []" "list_all is_space ws" and ds: "ds \<noteq> []" "list_all is_digit ds"
    by (simp_all add: directive_at_def)
  define Y where "Y = ds @ '';'' @ rest"
  define X where "X = ws @ Y"
  obtain d ds' where dd: "ds = d # ds'" using ds(1) by (cases ds) auto
  have d: "\<not> is_space d" using ds(2) dd by (simp add: digit_not_space)
  have sc: "\<not> is_digit CHR '';''" by (simp add: is_digit_def)
  have allw: "\<And>x. x \<in> set ws \<Longrightarrow> is_space x" using ws(2) by (simp add: list_all_iff)
  have alld: "\<And>x. x \<in> set ds \<Longrightarrow> is_digit x" using ds(2) by (simp add: list_all_iff)
  have y: "takeWhile is_space Y = []" "dropWhile is_space Y = Y"
    using d by (simp_all add: Y_def dd)
  have w: "takeWhile is_space X = ws"
    by (simp add: X_def takeWhile_append2[OF allw] y)
  have w': "dropWhile is_space X = Y"
    by (simp add: X_def dropWhile_append2[OF allw] y)
  have t1: "takeWhile is_digit Y = ds"
    using sc by (simp add: Y_def takeWhile_append2[OF alld])
  have t2: "dropWhile is_digit Y = '';'' @ rest"
    using sc by (simp add: Y_def dropWhile_append2[OF alld])
  have "match_directive name (name @ X) = Some (ws, ds)"
    unfolding match_directive_def Let_def by (simp add: w w' t1 t2 ws(1) ds(1))
  then show ?thesis by (simp add: t X_def Y_def)
qed

lemma match_directive_iff:
  "match_directive name t = Some (ws, ds) \<longleftrightarrow> (\<exists>rest. directive_at name ws ds rest t)"
proof
  assume m: "match_directive name t = Some (ws, ds)"
  from match_directive_Some[OF m]
  have "directive_at name ws ds (drop (length name + length ws + length ds + 1) t) t"
    unfolding directive_at_def by (simp add: list_all_iff)
  then show "\<exists>rest. directive_at name ws ds rest t" by blast
next
  assume "\<exists>rest. directive_at name ws ds rest t"
  then show "match_directive name t = Some (ws, ds)"
    by (auto intro: match_directive_complete)
qed

lemma find_directives_hit:
  assumes "directive_at name ws ds rest t"
  shows "find_directives name t = Hit (name @ ws) ds '';'' # find_directives name rest"
proof -
  from assms have t: "t = name @ ws @ ds @ '';'' @ rest" by (simp add: directive_at_def)
  then have "t \<noteq> []" by simp
  then obtain c cs where cs: "t = c # cs" by (cases t) simp_all
  have m: "match_directive name (c # cs) = Some (ws, ds)"
    using match_directive_complete[OF assms] cs by simp
  have "drop (length name + length ws + length ds + 1) t = rest"
    by (subst t) simp
  then have "drop (length name + length ws + length ds) cs = rest"
    by (simp add: cs)
  with m show ?thesis by (simp add: cs)
qed

lemma find_directives_gap:
  assumes "\<forall>ws ds rest. \<not> directive_at name ws ds rest (c # cs)"
  shows "find_directives name (c # cs) = Gap c # find_directives name cs"
proof -
  have "match_directive name (c # cs) = None"
  proof (cases "match_directive name (c # cs)")
    case None
    then show ?thesis .
  next
    case (Some m)
    obtain ws ds where "m = (ws, ds)" by (cases m)
    with Some match_directive_iff[of name "c # cs" ws ds] assms show ?thesis by blast
  qed
  then show ?thesis by simp
qed

lemma space_not_digit: "is_space c \<Longrightarrow> \<not> is_digit c"
  using digit_not_space by blast

lemma match_keepalive_complete:
  assumes t: "t = ''keepalive'' @ ws @ ds @ ws2 @ '';'' @ rest"
    and ws: "ws \<noteq> []" "list_all is_space ws" and ds: "ds \<noteq> []" "list_all is_digit ds"
    and ws2: "list_all is_space ws2"
  shows "match_keepalive t = Some (ws, ds, ws2)"
proof -
  define Z where "Z = ws2 @ '';'' @ rest"
  define Y where "Y = ds @ Z"
  define X where "X = ws @ Y"
  obtain d ds' where dd: "ds = d # ds'" using ds(1) by (cases ds) auto
  have d: "\<not> is_space d" using ds(2) dd by (simp add: digit_not_space)
  have sc: "\<not> is_digit CHR '';''" by (simp add: is_digit_def)
  have sc': "\<not> is_space CHR '';''" by (simp add: is_space_def)
  have allw: "\<And>x. x \<in> set ws \<Longrightarrow> is_space x" using ws(2) by (simp add: list_all_iff)
  have alld: "\<And>x. x \<in> set ds \<Longrightarrow> is_digit x" using ds(2) by (simp add: list_all_iff)
  have allw2: "\<And>x. x \<in> set ws2 \<Longrightarrow> is_space x" using ws2 by (simp add: list_all_iff)
  have y: "takeWhile is_space Y = []" "dropWhile is_space Y = Y"
    using d by (simp_all add: Y_def dd)
  have z: "takeWhile is_digit Z = []" "dropWhile is_digit Z = Z"
    using sc allw2 by (cases ws2; simp add: Z_def space_not_digit)+
  have w: "takeWhile is_space X = ws"
    by (simp add: X_def takeWhile_append2[OF allw] y)
  have w': "dropWhile is_space X = Y"
    by (simp add: X_def dropWhile_append2[OF allw] y)
  have t1: "takeWhile is_digit Y = ds"
    by (simp add: Y_def takeWhile_append2[OF alld] z)
  have t2: "dropWhile is_digit Y = Z"
    by (simp add: Y_def dropWhile_append2[OF alld] z)
  have u1: "takeWhile is_space Z = ws2"
    using sc' by (simp add: Z_def takeWhile_append2[OF allw2])
  have u2: "dropWhile is_space Z = '';'' @ rest"
    using sc' by (simp add: Z_def dropWhile_append2[OF allw2])
  have "match_keepalive (''keepalive'' @ X) = Some (ws, ds, ws2)"
    unfolding match_keepalive_def Let_def by (simp add: w w' t1 t2 u1 u2 ws(1) ds(1))
  then show ?thesis by (simp add: t X_def Y_def Z_def)
qed

lemma last_keepalive_above:
  "last_keepalive t n = Some (q, m) \<Longrightarrow> q < q' \<Longrightarrow> q' \<le> n \<Longrightarrow>
   match_keepalive (drop q' t) = None"
proof (induction n)
  case 0
  then show ?case by simp
next
  case (Suc n)
  show ?case
  proof (cases "match_keepalive (drop (Suc n) t)")
    case None
    show ?thesis
    proof (cases "q' = Suc n")
      case True
      with None show ?thesis by simp
    next
      case False
      with Suc.prems(3) have "q' \<le> n" by simp
      moreover from Suc.prems(1) None have "last_keepalive t n = Some (q, m)" by simp
      ultimately show ?thesis using Suc.IH Suc.prems(2) by blast
    qed
  next
    case (Some x)
    with Suc.prems(1) have "q = Suc n" by simp
    with Suc.prems(2,3) show ?thesis by simp
  qed
qed

lemma last_keepalive_None:
  "last_keepalive t n = None \<Longrightarrow> q' \<le> n \<Longrightarrow> match_keepalive (drop q' t) = None"
proof (induction n)
  case 0
  then show ?case by simp
next
  case (Suc n)
  from Suc.prems(1) have a: "match_keepalive (drop (Suc n) t) = None"
    and b: "last_keepalive t n = None"
    by (auto split: option.splits)
  show ?case
  proof (cases "q' = Suc n")
    case True
    with a show ?thesis by simp
  next
    case False
    with Suc.prems(2) have "q' \<le> n" by simp
    with Suc.IH[OF b] show ?thesis by blast
  qed
qed

lemma no_brace:
  "is_space c \<Longrightarrow> c \<noteq> CHR ''}''" "is_digit c \<Longrightarrow> c \<noteq> CHR ''}''"
  by (auto simp: is_space_def is_digit_def)

lemma takeWhile_length_ge:
  "(\<And>x. x \<in> set xs \<Longrightarrow> P x) \<Longrightarrow> length xs \<le> length (takeWhile P (xs @ ys))"
  by (simp add: takeWhile_append2)

lemma take_no_brace:
  assumes "q \<le> length (takeWhile (\<lambda>c. c \<noteq> CHR ''}'') s)"
  shows "CHR ''}'' \<notin> set (take q s)" and "length (take q s) = q"
proof -
  let ?w = "takeWhile (\<lambda>c. c \<noteq> CHR ''}'') s"
  have e: "take q s = take q ?w"
    using assms by (metis append_eq_conv_conj takeWhile_dropWhile_id min_def take_take)
  show "CHR ''}'' \<notin> set (take q s)"
    unfolding e by (auto dest!: in_set_takeD set_takeWhileD)
  show "length (take q s) = q"
    unfolding e using assms by simp
qed

lemma match_upstream_iff:
  "match_upstream t = Some (a, d, b) \<longleftrightarrow>
     (\<exists>body ws ws2 rest.
        upstream_at body ws d ws2 rest t
        \<and> a = block_marker @ body @ ''keepalive'' @ ws \<and> b = ws2 @ '';''
        \<and> (\<forall>body' ws' d' ws2' rest'.
              upstream_at body' ws' d' ws2' rest' t \<longrightarrow> length body' \<le> length body))"
proof
  assume mu: "match_upstream t = Some (a, d, b)"
  define s1 where "s1 = drop (length block_marker) t"
  define n where "n = length (takeWhile (\<lambda>c. c \<noteq> CHR ''}'') s1)"
  from mu have mk: "take (length block_marker) t = block_marker"
    by (auto simp: match_upstream_def split: if_splits)
  from mu mk obtain q ws ws2 where l: "last_keepalive s1 n = Some (q, ws, d, ws2)"
    and a: "a = block_marker @ take q s1 @ ''keepalive'' @ ws" and b: "b = ws2 @ '';''"
    unfolding match_upstream_def Let_def s1_def n_def
    by (auto split: if_splits option.splits)
  from last_keepalive_Some[OF l] have q: "q \<le> n"
    and m: "match_keepalive (drop q s1) = Some (ws, d, ws2)" by simp_all
  note k = match_keepalive_Some[OF m]
  have e1: "t = block_marker @ s1" unfolding s1_def using mk by (metis append_take_drop_id)
  have e2: "s1 = take q s1 @ drop q s1" by simp
  let ?r = "drop (length ''keepalive'' + length ws + length d + length ws2 + 1) (drop q s1)"
  have e3: "drop q s1 = ''keepalive'' @ ws @ d @ ws2 @ '';'' @ ?r" by (rule k(1))
  have tq: "CHR ''}'' \<notin> set (take q s1)" "length (take q s1) = q"
    using take_no_brace[of q s1] q unfolding n_def by simp_all
  have "t = block_marker @ take q s1 @ ''keepalive'' @ ws @ d @ ws2 @ '';'' @ ?r"
    using e1 e2 e3 by metis
  then have at: "upstream_at (take q s1) ws d ws2 ?r t"
    unfolding upstream_at_def using tq(1) k(2-6) by (simp add: list_all_iff)
  have mx: "length body' \<le> length (take q s1)"
    if u: "upstream_at body' ws' d' ws2' rest' t" for body' ws' d' ws2' rest'
  proof (rule ccontr)
    assume "\<not> length body' \<le> length (take q s1)"
    then have lt: "q < length body'" by (simp only: tq(2) not_le)
    from u have t': "t = block_marker @ body' @ ''keepalive'' @ ws' @ d' @ ws2' @ '';'' @ rest'"
      and nb: "CHR ''}'' \<notin> set body'"
      and c: "ws' \<noteq> []" "list_all is_space ws'" "d' \<noteq> []" "list_all is_digit d'"
        "list_all is_space ws2'"
      by (simp_all add: upstream_at_def)
    have s1': "s1 = body' @ ''keepalive'' @ ws' @ d' @ ws2' @ '';'' @ rest'"
      unfolding s1_def by (subst t') simp
    have "length body' \<le> n"
      unfolding n_def s1' using nb by (intro takeWhile_length_ge) auto
    moreover have "match_keepalive (drop (length body') s1) = Some (ws', d', ws2')"
      unfolding s1' using c by (simp add: match_keepalive_complete)
    ultimately show False using last_keepalive_above[OF l lt] by simp
  qed
  from at a b mx show "\<exists>body ws ws2 rest.
        upstream_at body ws d ws2 rest t
        \<and> a = block_marker @ body @ ''keepalive'' @ ws \<and> b = ws2 @ '';''
        \<and> (\<forall>body' ws' d' ws2' rest'.
              upstream_at body' ws' d' ws2' rest' t \<longrightarrow> length body' \<le> length body)"
    by blast
next
  assume "\<exists>body ws ws2 rest.
        upstream_at body ws d ws2 rest t
        \<and> a = block_marker @ body @ ''keepalive'' @ ws \<and> b = ws2 @ '';''
        \<and> (\<forall>body' ws' d' ws2' rest'.
              upstream_at body' ws' d' ws2' rest' t \<longrightarrow> length body' \<le> length body)"
  then obtain body ws ws2 rest where u: "upstream_at body ws d ws2 rest t"
    and a: "a = block_marker @ body @ ''keepalive'' @ ws" and b: "b = ws2 @ '';''"
    and mx: "\<And>body' ws' d' ws2' rest'.
              upstream_at body' ws' d' ws2' rest' t \<Longrightarrow> length body' \<le> length body"
    by blast
  define s1 where "s1 = drop (length block_marker) t"
  define n where "n = length (takeWhile (\<lambda>c. c \<noteq> CHR ''}'') s1)"
  from u have t: "t = block_marker @ body @ ''keepalive'' @ ws @ d @ ws2 @ '';'' @ rest"
    and nb: "CHR ''}'' \<notin> set body"
    and c: "ws \<noteq> []" "list_all is_space ws" "d \<noteq> []" "list_all is_digit d"
      "list_all is_space ws2"
    by (simp_all add: upstream_at_def)
  have mk: "take (length block_marker) t = block_marker" by (subst t) simp
  have s1: "s1 = body @ ''keepalive'' @ ws @ d @ ws2 @ '';'' @ rest"
    unfolding s1_def by (subst t) simp
  have bn: "length body \<le> n"
    unfolding n_def s1 using nb by (intro takeWhile_length_ge) auto
  have mb: "match_keepalive (drop (length body) s1) = Some (ws, d, ws2)"
    unfolding s1 using c by (simp add: match_keepalive_complete)
  have "last_keepalive s1 n \<noteq> None"
  proof
    assume "last_keepalive s1 n = None"
    from last_keepalive_None[OF this bn] mb show False by simp
  qed
  then obtain x where "last_keepalive s1 n = Some x" by blast
  moreover obtain q ws' d' ws2' where "x = (q, ws', d', ws2')" by (cases x)
  ultimately have l: "last_keepalive s1 n = Some (q, ws', d', ws2')" by simp
  from last_keepalive_Some[OF l] have q: "q \<le> n"
    and m: "match_keepalive (drop q s1) = Some (ws', d', ws2')" by simp_all
  have ge: "length body \<le> q"
  proof (rule ccontr)
    assume "\<not> length body \<le> q"
    then have "q < length body" by simp
    from last_keepalive_above[OF l this bn] mb show False by simp
  qed
  note k = match_keepalive_Some[OF m]
  have tq: "CHR ''}'' \<notin> set (take q s1)" "length (take q s1) = q"
    using take_no_brace[of q s1] q unfolding n_def by simp_all
  have e1: "t = block_marker @ s1" unfolding s1_def using mk by (metis append_take_drop_id)
  have e2: "s1 = take q s1 @ drop q s1" by simp
  let ?r = "drop (length ''keepalive'' + length ws' + length d' + length ws2' + 1) (drop q s1)"
  have e3: "drop q s1 = ''keepalive'' @ ws' @ d' @ ws2' @ '';'' @ ?r" by (rule k(1))
  have "t = block_marker @ take q s1 @ ''keepalive'' @ ws' @ d' @ ws2' @ '';'' @ ?r"
    using e1 e2 e3 by metis
  then have "upstream_at (take q s1) ws' d' ws2' ?r t"
    unfolding upstream_at_def using tq(1) k(2-6) by (simp add: list_all_iff)
  from mx[OF this] have "q \<le> length body" by (simp only: tq(2))
  with ge have qe: "q = length body" by simp
  with m mb have same: "ws' = ws" "d' = d" "ws2' = ws2" by simp_all
  have tb: "take q s1 = body" unfolding qe s1 by simp
  show "match_upstream t = Some (a, d, b)"
    unfolding match_upstream_def Let_def
    using mk l by (simp add: s1_def[symmetric] n_def[symmetric] same tb a b)
qed

lemma find_upstream_hit:
  assumes "match_upstream t = Some (a, d, b)"
  shows "\<exists>rest. t = a @ d @ b @ rest \<and> find_upstream t = Hit a d b # find_upstream rest"
proof -
  note u = match_upstream_Some[OF assms]
  from u(2) have la: "length a > 0" by (auto simp: upstream_hit_def block_marker_def)
  with u(1) have "t \<noteq> []" by auto
  then obtain c cs where cs: "t = c # cs" by (cases t) simp_all
  let ?k = "length a + length d + length b"
  have "drop ?k (c # cs) = drop (?k - 1) cs"
    using la by (cases ?k) simp_all
  then have "find_upstream t = Hit a d b # find_upstream (drop ?k t)"
    using assms by (simp add: cs)
  with u(1) show ?thesis by blast
qed

lemma find_upstream_gap:
  "match_upstream (c # cs) = None \<Longrightarrow> find_upstream (c # cs) = Gap c # find_upstream cs"
  by simp

lemma match_upstream_None_iff:
  "match_upstream t = None \<longleftrightarrow> (\<forall>body ws d ws2 rest. \<not> upstream_at body ws d ws2 rest t)"
proof
  assume n: "match_upstream t = None"
  show "\<forall>body ws d ws2 rest. \<not> upstream_at body ws d ws2 rest t"
  proof (intro allI notI)
    fix body ws d ws2 rest
    assume u: "upstream_at body ws d ws2 rest t"
    define s1 where "s1 = drop (length block_marker) t"
    define n' where "n' = length (takeWhile (\<lambda>c. c \<noteq> CHR ''}'') s1)"
    from u have t: "t = block_marker @ body @ ''keepalive'' @ ws @ d @ ws2 @ '';'' @ rest"
      and nb: "CHR ''}'' \<notin> set body"
      and c: "ws \<noteq> []" "list_all is_space ws" "d \<noteq> []" "list_all is_digit d"
        "list_all is_space ws2"
      by (simp_all add: upstream_at_def)
    have mk: "take (length block_marker) t = block_marker" by (subst t) simp
    have s1: "s1 = body @ ''keepalive'' @ ws @ d @ ws2 @ '';'' @ rest"
      unfolding s1_def by (subst t) simp
    have bn: "length body \<le> n'"
      unfolding n'_def s1 using nb by (intro takeWhile_length_ge) auto
    have mb: "match_keepalive (drop (length body) s1) = Some (ws, d, ws2)"
      unfolding s1 using c by (simp add: match_keepalive_complete)
    from n mk have "last_keepalive s1 n' = None"
      unfolding match_upstream_def Let_def s1_def n'_def
      by (auto split: option.splits)
    from last_keepalive_None[OF this bn] mb show False by simp
  qed
next
  assume a: "\<forall>body ws d ws2 rest. \<not> upstream_at body ws d ws2 rest t"
  show "match_upstream t = None"
  proof (cases "match_upstream t")
    case None
    then show ?thesis .
  next
    case (Some m)
    obtain x d b where "m = (x, d, b)" by (cases m)
    with Some match_upstream_iff[of t x d b] a show ?thesis by blast
  qed
qed

lemma read_text_id: "CHR 0x0D \<notin> set s \<Longrightarrow> read_text s = s"
  by (induction s rule: read_text.induct) auto

lemma write_text_lf: "write_text [CHR 0x0A] s = s"
  by (induction s) (simp_all add: write_text_def)

lemma apply_nginx_config_ok:
  "readable f \<Longrightarrow> writable f \<Longrightarrow>
   apply_nginx_config cfg f =
     (True, f\<lparr>contents := write_text (linesep f)
        ((case upstream_keepalive cfg of None \<Rightarrow> id | Some v \<Rightarrow> set_upstream_keepalive v)
          ((case keepalive_timeout cfg of None \<Rightarrow> id
            | Some v \<Rightarrow> set_directive ''keepalive_timeout'' v)
            ((case worker_connections cfg of None \<Rightarrow> id
              | Some v \<Rightarrow> set_directive ''worker_connections'' v)
              (read_text (contents f)))))\<rparr>)"
  by (simp add: apply_nginx_config_def Let_def split: option.splits)

lemma apply_nginx_config_fails:
  "\<not> readable f \<or> \<not> writable f \<Longrightarrow> apply_nginx_config cfg f = (False, f)"
  by (auto simp: apply_nginx_config_def Let_def)

text \<open>
  C6, as the code has it. On a file that can be read and written, the function writes
  the text of the file, read with every line end as a line feed, after the substitution
  of each parameter that the configuration has, with the line separator of the platform
  for every line feed; on any other file it returns \<open>False\<close> and leaves the file. A text
  without carriage return is read as it is, and a line feed separator writes the text
  as it is.

  The directive pattern matches at a position exactly where the name, one or more
  blanks, one or more digits up to a character that is no digit, and a semicolon stand;
  the scan takes a match where there is one, goes on after it, and copies the character
  where there is none. The matches and the characters outside them make up the text;
  the substitution writes the name, one space, the value and the semicolon in place of
  each match and copies every character outside the matches. Where the directives are
  written with one space, that is the text with only the digits replaced, as for
  \<^verbatim>\<open>worker_connections\<close> followed by one space and digits after a text without the
  letter w.

  The upstream pattern matches at a position exactly where \<^verbatim>\<open>upstream backend {\<close> stands,
  followed by a text without closing brace, \<^verbatim>\<open>keepalive\<close>, one or more blanks, all the
  digits there, blanks and a semicolon, and it takes the longest such text before
  \<^verbatim>\<open>keepalive\<close>, that is the last directive of the block. The scan takes a match where
  there is one, goes on after it, and copies the character where there is none; the
  substitution replaces only the digits of each match, and a text without an opening
  brace is left as it is.
\<close>

theorem apply_rewrites_matched_directives:
  "(readable f \<and> writable f \<longrightarrow>
      apply_nginx_config cfg f =
        (True, f\<lparr>contents := write_text (linesep f)
           ((case upstream_keepalive cfg of None \<Rightarrow> id | Some v \<Rightarrow> set_upstream_keepalive v)
             ((case keepalive_timeout cfg of None \<Rightarrow> id
               | Some v \<Rightarrow> set_directive ''keepalive_timeout'' v)
               ((case worker_connections cfg of None \<Rightarrow> id
                 | Some v \<Rightarrow> set_directive ''worker_connections'' v)
                 (read_text (contents f)))))\<rparr>))
   \<and> (\<not> readable f \<or> \<not> writable f \<longrightarrow> apply_nginx_config cfg f = (False, f))
   \<and> (CHR 0x0D \<notin> set s \<longrightarrow> read_text s = s)
   \<and> write_text [CHR 0x0A] s = s
   \<and> (match_directive name t = Some (ws, ds) \<longleftrightarrow> (\<exists>rest. directive_at name ws ds rest t))
   \<and> (directive_at name ws ds rest t \<longrightarrow>
        find_directives name t = Hit (name @ ws) ds '';'' # find_directives name rest)
   \<and> ((\<forall>ws ds rest. \<not> directive_at name ws ds rest (c # cs)) \<longrightarrow>
        find_directives name (c # cs) = Gap c # find_directives name cs)
   \<and> replace_hits (\<lambda>a d b. a @ d @ b) (find_directives name s) = s
   \<and> set_directive name v s
        = replace_hits (\<lambda>a d b. name @ '' '' @ show_int v @ b) (find_directives name s)
   \<and> (list_all (single_spaced name) (find_directives name s) \<longrightarrow>
        set_directive name v s
          = replace_hits (\<lambda>a d b. a @ show_int v @ b) (find_directives name s))
   \<and> (CHR ''w'' \<notin> set pre \<and> digits \<noteq> [] \<and> list_all is_digit digits \<longrightarrow>
        set_directive ''worker_connections'' v
            (pre @ ''worker_connections'' @ '' '' @ digits @ '';'' @ post)
          = pre @ ''worker_connections'' @ '' '' @ show_int v @ '';''
              @ set_directive ''worker_connections'' v post)
   \<and> (match_upstream t = Some (a, d, b) \<longleftrightarrow>
        (\<exists>body ws ws2 rest.
           upstream_at body ws d ws2 rest t
           \<and> a = block_marker @ body @ ''keepalive'' @ ws \<and> b = ws2 @ '';''
           \<and> (\<forall>body' ws' d' ws2' rest'.
                 upstream_at body' ws' d' ws2' rest' t \<longrightarrow> length body' \<le> length body)))
   \<and> (match_upstream t = Some (a, d, b) \<longrightarrow>
        (\<exists>rest. t = a @ d @ b @ rest \<and> find_upstream t = Hit a d b # find_upstream rest))
   \<and> ((\<forall>body ws d ws2 rest. \<not> upstream_at body ws d ws2 rest (c # cs)) \<longrightarrow>
        find_upstream (c # cs) = Gap c # find_upstream cs)
   \<and> replace_hits (\<lambda>a d b. a @ d @ b) (find_upstream u) = u
   \<and> set_upstream_keepalive v u
        = replace_hits (\<lambda>a d b. a @ show_int v @ b) (find_upstream u)
   \<and> (CHR ''{'' \<notin> set outside \<longrightarrow> set_upstream_keepalive v outside = outside)"
proof -
  have sh: "list_all (directive_hit name) (find_directives name s)"
    by (rule find_directives_shape)
  have 2: "set_directive name v s
        = replace_hits (\<lambda>a d b. name @ '' '' @ show_int v @ b) (find_directives name s)"
    unfolding set_directive_def by (rule directive_hit_fixed[OF sh])
  have 3: "list_all (single_spaced name) (find_directives name s) \<longrightarrow>
        set_directive name v s
          = replace_hits (\<lambda>a d b. a @ show_int v @ b) (find_directives name s)"
    unfolding set_directive_def
    using single_spaced_replace[of name "find_directives name s" "show_int v"]
      directive_hit_suffix[OF sh, of "show_int v"] by simp
  have 4: "CHR ''w'' \<notin> set pre \<and> digits \<noteq> [] \<and> list_all is_digit digits \<longrightarrow>
        set_directive ''worker_connections'' v
            (pre @ ''worker_connections'' @ '' '' @ digits @ '';'' @ post)
          = pre @ ''worker_connections'' @ '' '' @ show_int v @ '';''
              @ set_directive ''worker_connections'' v post"
    using set_directive_single_space[of "''worker_connections''" pre digits v post] by simp
  have 5: "CHR ''{'' \<notin> set outside \<longrightarrow> set_upstream_keepalive v outside = outside"
    by (simp add: set_upstream_keepalive_def find_upstream_gaps replace_hits_gaps)
  have 6: "set_upstream_keepalive v u
        = replace_hits (\<lambda>a d b. a @ show_int v @ b) (find_upstream u)"
    by (simp add: set_upstream_keepalive_def)
  have 7: "(\<forall>body ws d ws2 rest. \<not> upstream_at body ws d ws2 rest (c # cs)) \<longrightarrow>
        find_upstream (c # cs) = Gap c # find_upstream cs"
    using match_upstream_None_iff[of "c # cs"] find_upstream_gap[of c cs] by blast
  have 8: "directive_at name ws ds rest t \<longrightarrow>
        find_directives name t = Hit (name @ ws) ds '';'' # find_directives name rest"
    using find_directives_hit by blast
  have 9: "(\<forall>ws ds rest. \<not> directive_at name ws ds rest (c # cs)) \<longrightarrow>
        find_directives name (c # cs) = Gap c # find_directives name cs"
    using find_directives_gap by blast
  have 10: "match_upstream t = Some (a, d, b) \<longrightarrow>
        (\<exists>rest. t = a @ d @ b @ rest \<and> find_upstream t = Hit a d b # find_upstream rest)"
    using find_upstream_hit by blast
  have 11: "readable f \<and> writable f \<longrightarrow>
      apply_nginx_config cfg f =
        (True, f\<lparr>contents := write_text (linesep f)
           ((case upstream_keepalive cfg of None \<Rightarrow> id | Some v \<Rightarrow> set_upstream_keepalive v)
             ((case keepalive_timeout cfg of None \<Rightarrow> id
               | Some v \<Rightarrow> set_directive ''keepalive_timeout'' v)
               ((case worker_connections cfg of None \<Rightarrow> id
                 | Some v \<Rightarrow> set_directive ''worker_connections'' v)
                 (read_text (contents f)))))\<rparr>)"
    using apply_nginx_config_ok by blast
  have 12: "\<not> readable f \<or> \<not> writable f \<longrightarrow> apply_nginx_config cfg f = (False, f)"
    using apply_nginx_config_fails by blast
  have 13: "CHR 0x0D \<notin> set s \<longrightarrow> read_text s = s" using read_text_id by blast
  note 14 = write_text_lf[of s] match_directive_iff[of name t ws ds]
    find_directives_reassemble[of name s] match_upstream_iff[of t a d b]
    find_upstream_reassemble[of u]
  show ?thesis
    by (intro conjI) (rule 2 3 4 5 6 7 8 9 10 11 12 13 14)+
qed

text \<open>
  C6 as stated fails: on the directive written with two spaces, the substitution changes
  the blanks as well as the number, and a file with CR LF line ends is written with
  line feeds on a platform whose separator is the line feed.
\<close>

theorem whitespace_and_line_ends_rewritten:
  "apply_nginx_config (only_worker_connections 2048)
      \<lparr>readable = True, writable = True, contents = ''worker_connections  1024;'',
       linesep = [CHR 0x0A]\<rparr>
     = (True, \<lparr>readable = True, writable = True, contents = ''worker_connections 2048;'',
              linesep = [CHR 0x0A]\<rparr>)
   \<and> ''worker_connections 2048;'' \<noteq> ''worker_connections  2048;''
   \<and> apply_nginx_config (only_worker_connections 2048) crlf_conf
     = (True, crlf_conf\<lparr>contents :=
          ''events {'' @ [CHR 0x0A] @ ''worker_connections 2048;'' @ [CHR 0x0A] @ ''}''\<rparr>)
   \<and> ''events {'' @ [CHR 0x0A] @ ''worker_connections 2048;'' @ [CHR 0x0A] @ ''}''
       \<noteq> ''events {'' @ [CHR 0x0D, CHR 0x0A] @ ''worker_connections 2048;''
           @ [CHR 0x0D, CHR 0x0A] @ ''}''"
  by code_simp

lemma stages_example_conf:
  "write_text (linesep example_conf)
     ((case upstream_keepalive all_three of None \<Rightarrow> id | Some v \<Rightarrow> set_upstream_keepalive v)
       ((case keepalive_timeout all_three of None \<Rightarrow> id
         | Some v \<Rightarrow> set_directive ''keepalive_timeout'' v)
         ((case worker_connections all_three of None \<Rightarrow> id
           | Some v \<Rightarrow> set_directive ''worker_connections'' v)
           (read_text (contents example_conf)))))
   = ''worker_processes auto; events { worker_connections 2048; } http { keepalive_timeout 75; upstream backend { server app1:5000; keepalive 64; } server { keepalive 16; } }''"
  by code_simp

lemma match_upstream_example:
  "match_upstream ''upstream backend { server app1:5000; keepalive 32; } server { keepalive 16; } }''
     = Some (''upstream backend { server app1:5000; keepalive '', ''32'', '';'')"
  by code_simp

lemma directive_at_example:
  "directive_at ''worker_connections'' '' '' ''1024'' '' }'' ''worker_connections 1024; }''"
  by (simp add: directive_at_def is_space_def is_digit_def)

theorem apply_rewrites_matched_directives_witness:
  "apply_nginx_config all_three example_conf
     = (True, example_conf\<lparr>contents := ''worker_processes auto; events { worker_connections 2048; } http { keepalive_timeout 75; upstream backend { server app1:5000; keepalive 64; } server { keepalive 16; } }''\<rparr>)
   \<and> apply_nginx_config all_three (example_conf\<lparr>writable := False\<rparr>)
     = (False, example_conf\<lparr>writable := False\<rparr>)
   \<and> find_directives ''worker_connections'' ''worker_connections 1024; }''
     = Hit (''worker_connections'' @ '' '') ''1024'' '';''
         # find_directives ''worker_connections'' '' }''
   \<and> set_directive ''worker_connections'' 2048
        (''events { '' @ ''worker_connections'' @ '' '' @ ''1024'' @ '';'' @ '' }'')
      = ''events { '' @ ''worker_connections'' @ '' '' @ show_int 2048 @ '';''
          @ set_directive ''worker_connections'' 2048 '' }''
   \<and> (\<exists>rest. ''upstream backend { server app1:5000; keepalive 32; } server { keepalive 16; } }''
          = ''upstream backend { server app1:5000; keepalive '' @ ''32'' @ '';'' @ rest
        \<and> find_upstream ''upstream backend { server app1:5000; keepalive 32; } server { keepalive 16; } }''
          = Hit ''upstream backend { server app1:5000; keepalive '' ''32'' '';''
              # find_upstream rest)
   \<and> set_upstream_keepalive 2048 '' server keepalive 16; '' = '' server keepalive 16; ''"
proof -
  note t = apply_rewrites_matched_directives[where f=example_conf and cfg=all_three
      and v=2048 and pre="''events { ''" and digits="''1024''" and post="'' }''"
      and name="''worker_connections''" and ws="'' ''" and ds="''1024''" and rest="'' }''"
      and t="''worker_connections 1024; }''" and outside="'' server keepalive 16; ''"]
  have rw: "readable example_conf \<and> writable example_conf" by (simp add: example_conf_def)
  from t rw have 1: "apply_nginx_config all_three example_conf
     = (True, example_conf\<lparr>contents := ''worker_processes auto; events { worker_connections 2048; } http { keepalive_timeout 75; upstream backend { server app1:5000; keepalive 64; } server { keepalive 16; } }''\<rparr>)"
    unfolding stages_example_conf by blast
  note t2 = apply_rewrites_matched_directives[where f="example_conf\<lparr>writable := False\<rparr>"
      and cfg=all_three]
  have nw: "\<not> readable (example_conf\<lparr>writable := False\<rparr>)
      \<or> \<not> writable (example_conf\<lparr>writable := False\<rparr>)" by simp
  from t2 nw have 2: "apply_nginx_config all_three (example_conf\<lparr>writable := False\<rparr>)
     = (False, example_conf\<lparr>writable := False\<rparr>)" by blast
  from t directive_at_example
  have 3: "find_directives ''worker_connections'' ''worker_connections 1024; }''
     = Hit (''worker_connections'' @ '' '') ''1024'' '';''
         # find_directives ''worker_connections'' '' }''" by blast
  have p: "CHR ''w'' \<notin> set ''events { '' \<and> ''1024'' \<noteq> [] \<and> list_all is_digit ''1024''"
    by (simp add: is_digit_def)
  from t p have 4: "set_directive ''worker_connections'' 2048
        (''events { '' @ ''worker_connections'' @ '' '' @ ''1024'' @ '';'' @ '' }'')
      = ''events { '' @ ''worker_connections'' @ '' '' @ show_int 2048 @ '';''
          @ set_directive ''worker_connections'' 2048 '' }''" by blast
  note t3 = apply_rewrites_matched_directives[where
      t="''upstream backend { server app1:5000; keepalive 32; } server { keepalive 16; } }''"
      and a="''upstream backend { server app1:5000; keepalive ''" and d="''32''" and b="'';''"]
  from t3 match_upstream_example
  have 5: "\<exists>rest. ''upstream backend { server app1:5000; keepalive 32; } server { keepalive 16; } }''
          = ''upstream backend { server app1:5000; keepalive '' @ ''32'' @ '';'' @ rest
        \<and> find_upstream ''upstream backend { server app1:5000; keepalive 32; } server { keepalive 16; } }''
          = Hit ''upstream backend { server app1:5000; keepalive '' ''32'' '';''
              # find_upstream rest" by blast
  have o: "CHR ''{'' \<notin> set '' server keepalive 16; ''" by simp
  from t o have 6: "set_upstream_keepalive 2048 '' server keepalive 16; ''
      = '' server keepalive 16; ''" by blast
  from 1 2 3 4 5 6 show ?thesis by blast
qed

section \<open>Properties of the candidate generation\<close>

lemma length_py_prefix:
  "0 \<le> n \<Longrightarrow> length (py_prefix n xs) = min (nat n) (length xs)"
  by (simp add: py_prefix_def min_def)

lemma length_wc_values: "0 \<le> g \<Longrightarrow> length (wc_values g) = nat g"
  by (simp add: wc_values_def length_py_prefix)

lemma length_kt_values: "0 \<le> g \<Longrightarrow> length (kt_values g) = nat g"
  by (simp add: kt_values_def length_py_prefix)

lemma length_uk_values: "0 \<le> g \<Longrightarrow> length (uk_values g) = nat g"
  by (simp add: uk_values_def length_py_prefix)

lemma length_generate_grid_configs:
  "length (generate_grid_configs g) =
     length (wc_values g) * (length (kt_values g) * length (uk_values g))"
  by (simp add: generate_grid_configs_def length_concat comp_def sum_list_triv)

lemma length_shuffle_down: "length (shuffle_down rand k xs) = length xs"
  by (induction k arbitrary: xs) (simp_all add: Let_def)

lemma length_shuffle: "length (shuffle rand xs) = length xs"
  by (simp add: shuffle_def length_shuffle_down)

lemma mset_shuffle_down: "k < length xs \<Longrightarrow> mset (shuffle_down rand k xs) = mset xs"
proof (induction k arbitrary: xs)
  case 0
  then show ?case by simp
next
  case (Suc k)
  let ?j = "rand (Suc k) mod (Suc k + 1)"
  have j: "?j < length xs" using Suc.prems
    by (metis Suc_eq_plus1 less_Suc_eq_le mod_less_divisor zero_less_Suc le_less_trans)
  let ?ys = "xs[Suc k := xs ! ?j, ?j := xs ! Suc k]"
  have "mset ?ys = mset xs" using Suc.prems j by (simp add: mset_swap)
  moreover have "mset (shuffle_down rand k ?ys) = mset ?ys"
    using Suc.prems by (intro Suc.IH) simp
  ultimately show ?case by (simp add: Let_def)
qed

lemma mset_shuffle: "mset (shuffle rand xs) = mset xs"
proof (cases xs)
  case Nil
  then show ?thesis by (simp add: shuffle_def)
next
  case (Cons x xs')
  then show ?thesis unfolding shuffle_def by (intro mset_shuffle_down) simp
qed

text \<open>
  C3. For a grid size \<open>g \<ge> 0\<close> each of the three axes has \<open>g\<close> values and the generator
  returns \<open>g ^ 3\<close> configurations; the shuffle is a permutation of them; for a requested
  iteration count \<open>n \<ge> 0\<close> the list that main keeps has \<open>min n (g ^ 3)\<close> elements.
\<close>

theorem candidate_counts:
  assumes "0 \<le> g" and "0 \<le> n"
  shows "length (wc_values g) = nat g \<and> length (kt_values g) = nat g
       \<and> length (uk_values g) = nat g
       \<and> length (generate_grid_configs g) = nat g ^ 3
       \<and> mset (shuffle rand (generate_grid_configs g)) = mset (generate_grid_configs g)
       \<and> length (candidate_configs \<lparr>iterations = n, grid_size = g\<rparr> rand)
           = min (nat n) (nat g ^ 3)"
proof -
  have l: "length (generate_grid_configs g) = nat g ^ 3"
    using assms(1)
    by (simp add: length_generate_grid_configs length_wc_values length_kt_values
          length_uk_values power3_eq_cube)
  define cs where "cs = shuffle rand (generate_grid_configs g)"
  have lc: "length cs = nat g ^ 3" by (simp add: cs_def length_shuffle l)
  have cc: "candidate_configs \<lparr>iterations = n, grid_size = g\<rparr> rand =
              (if int (length cs) > n then py_prefix n cs else cs)"
    by (simp add: candidate_configs_def Let_def cs_def)
  have "length (candidate_configs \<lparr>iterations = n, grid_size = g\<rparr> rand) = min (nat n) (nat g ^ 3)"
  proof (cases "int (length cs) > n")
    case True
    then have "nat n \<le> length cs" using assms(2) by linarith
    then show ?thesis using True assms(2) lc by (simp add: cc length_py_prefix)
  next
    case False
    then have "length cs \<le> nat n" by linarith
    then show ?thesis using False lc by (simp add: cc)
  qed
  then show ?thesis
    using assms(1) l by (simp add: length_wc_values length_kt_values length_uk_values mset_shuffle)
qed

theorem candidate_counts_witness:
  "(0::int) \<le> 5 \<and> (0::int) \<le> 9
   \<and> length (generate_grid_configs 5) = 125
   \<and> length (candidate_configs \<lparr>iterations = 9, grid_size = 5\<rparr> (\<lambda>i. i * 7 + 3)) = 9"
  using candidate_counts[of 5 9 "\<lambda>i. i * 7 + 3"] by simp

end
